theory Spec2Isabelle
  imports Complex_Main "HOL-Library.Sublist"
begin

section \<open>JavaScript strings\<close>

text \<open>
  A JavaScript string is modelled as a \<^typ>\<open>string\<close>: one \<^typ>\<open>char\<close> stands for one
  code unit, so \<^term>\<open>length\<close> is the \<open>.length\<close> of the source. The code units are the
  256 values a \<^typ>\<open>char\<close> has; among them \<open>String.prototype.trim\<close> and the regular
  expression class \<open>\s\<close> treat as white space the code units 9 to 13 (TAB, LF, VT, FF,
  CR), 32 (SPACE) and 160 (NO-BREAK SPACE).
\<close>

definition is_ws :: "char \<Rightarrow> bool" where
  "is_ws c = (c \<in> {CHR 0x09, CHR 0x0A, CHR 0x0B, CHR 0x0C, CHR 0x0D, CHR 0x20, CHR 0xA0})"

text \<open>\<open>s.trim()\<close>: white space is removed from both ends.\<close>

definition trim :: "string \<Rightarrow> string" where
  "trim s = rev (dropWhile is_ws (rev (dropWhile is_ws s)))"

text \<open>A string is truthy when it is not empty.\<close>

definition truthy :: "string \<Rightarrow> bool" where
  "truthy s = (s \<noteq> [])"

text \<open>
  \<open>s.split(/\s+/).filter(Boolean).length\<close>: the number of maximal runs of code units
  that are not white space.
\<close>

fun count_runs :: "bool \<Rightarrow> string \<Rightarrow> nat" where
  "count_runs inside [] = 0"
| "count_runs inside (c # cs) =
     (if is_ws c then count_runs False cs
      else (if inside then 0 else 1) + count_runs True cs)"

definition word_count :: "string \<Rightarrow> nat" where
  "word_count s = count_runs False s"

section \<open>The note sink: \<open>appendToNote\<close> of \<open>useNotes\<close> and the segment effect of \<open>App\<close>\<close>

text \<open>
  A note carries the fields \<open>appendToNote\<close> reads and writes; every other field of the
  source object (\<open>title\<close>, \<open>createdAt\<close>, \<open>tags\<close>, ...) is copied by the spread
  \<open>...note\<close> and lives in the extension part of the record.
\<close>

record voice_note =
  note_id :: string
  content :: string
  updatedAt :: string
  wordCount :: nat

text \<open>
  The part of the state of \<open>App\<close> that the segment effect touches: the notes (\<open>notes_st\<close>) and the
  current note of \<open>useNotes\<close>, and \<open>lastProcessedSegment\<close>.
\<close>

record 'a app =
  notes_st :: "'a voice_note_scheme list"
  currentNote :: "'a voice_note_scheme option"
  lastProcessedSegment :: string

text \<open>The object \<open>updatedNote\<close> built inside \<open>appendToNote\<close>; \<open>now\<close> is the time stamp.\<close>

definition updatedNote :: "string \<Rightarrow> string \<Rightarrow> 'a voice_note_scheme \<Rightarrow> 'a voice_note_scheme" where
  "updatedNote now text n =
     (let newContent = (if truthy (content n) then content n @ '' '' else []) @ text
      in n\<lparr>content := newContent, updatedAt := now, wordCount := word_count newContent\<rparr>)"

text \<open>
  \<open>appendToNote(noteId, text)\<close>: nothing for an empty text; otherwise every note with that
  id is replaced by its updated copy, and the updater handed to \<open>setCurrentNote\<close> runs once
  for each of them, so the current note, when it has that id, ends as the last updated copy.
\<close>

definition appendToNote :: "string \<Rightarrow> string \<Rightarrow> string \<Rightarrow> 'a app \<Rightarrow> 'a app" where
  "appendToNote now noteId text a =
     (if \<not> truthy text then a
      else a\<lparr>notes_st := map (\<lambda>n. if note_id n = noteId then updatedNote now text n else n) (notes_st a),
             currentNote :=
               (case currentNote a of
                  None \<Rightarrow> None
                | Some c \<Rightarrow>
                    (case filter (\<lambda>n. note_id n = noteId) (notes_st a) of
                       [] \<Rightarrow> Some c
                     | m # ms \<Rightarrow>
                         if note_id c = noteId then Some (updatedNote now text (last (m # ms)))
                         else Some c))\<rparr>)"

text \<open>
  The effect of \<open>App\<close> that runs for a value of \<open>latestFinalSegment\<close>: the segment is
  appended to the current note unless it is empty, equal to \<open>lastProcessedSegment\<close>, or no
  note is selected.
\<close>

definition segment_effect :: "string \<Rightarrow> string \<Rightarrow> 'a app \<Rightarrow> 'a app" where
  "segment_effect now latestFinalSegment a =
     (case currentNote a of
        None \<Rightarrow> a
      | Some c \<Rightarrow>
          if truthy latestFinalSegment \<and> latestFinalSegment \<noteq> lastProcessedSegment a
          then (appendToNote now (note_id c) latestFinalSegment a)
                 \<lparr>lastProcessedSegment := latestFinalSegment\<rparr>
          else a)"

section \<open>PCM conversion in \<open>processor.onaudioprocess\<close>\<close>

text \<open>
  An element of the \<open>Float32Array\<close> returned by \<open>getChannelData\<close> is a finite binary
  fraction, one of the two infinities, or not a number. A finite element has a significand
  of at most 24 bits, and its product with \<open>0x8000\<close> or \<open>0x7FFF\<close> has one of at most
  39 bits, so the double-precision operations of the loop body are exact on it and the
  rational numbers compute what the source computes.
\<close>

datatype sample = Finite rat | PosInf | NegInf | NaN

text \<open>\<open>Math.min\<close> and \<open>Math.max\<close>: not a number as soon as one argument is.\<close>

fun math_min :: "sample \<Rightarrow> sample \<Rightarrow> sample" where
  "math_min NaN y = NaN"
| "math_min x NaN = NaN"
| "math_min NegInf y = NegInf"
| "math_min x NegInf = NegInf"
| "math_min PosInf y = y"
| "math_min x PosInf = x"
| "math_min (Finite a) (Finite b) = Finite (min a b)"

fun math_max :: "sample \<Rightarrow> sample \<Rightarrow> sample" where
  "math_max NaN y = NaN"
| "math_max x NaN = NaN"
| "math_max PosInf y = PosInf"
| "math_max x PosInf = PosInf"
| "math_max NegInf y = y"
| "math_max x NegInf = x"
| "math_max (Finite a) (Finite b) = Finite (max a b)"

text \<open>\<open>x < 0\<close>: false for not a number.\<close>

fun negative :: "sample \<Rightarrow> bool" where
  "negative (Finite a) = (a < 0)"
| "negative NegInf = True"
| "negative PosInf = False"
| "negative NaN = False"

text \<open>\<open>x * k\<close> for a constant \<open>k > 0\<close>.\<close>

fun times_const :: "sample \<Rightarrow> rat \<Rightarrow> sample" where
  "times_const (Finite a) k = Finite (a * k)"
| "times_const PosInf k = PosInf"
| "times_const NegInf k = NegInf"
| "times_const NaN k = NaN"

text \<open>
  The store into an \<open>Int16Array\<close> element: not a number and the infinities become 0, a
  finite value is truncated towards zero and reduced modulo \<open>2 ^ 16\<close> into the signed range.
\<close>

definition trunc_rat :: "rat \<Rightarrow> int" where
  "trunc_rat q = (if 0 \<le> q then \<lfloor>q\<rfloor> else \<lceil>q\<rceil>)"

fun to_int16 :: "sample \<Rightarrow> int" where
  "to_int16 (Finite q) = (trunc_rat q + 32768) mod 65536 - 32768"
| "to_int16 x = 0"

text \<open>\<open>Math.max(-1, Math.min(1, inputData[i]))\<close>\<close>

definition clamp_sample :: "sample \<Rightarrow> sample" where
  "clamp_sample x = math_max (Finite (- 1)) (math_min (Finite 1) x)"

text \<open>The body of the loop: the value stored in \<open>pcm16View[i]\<close> for \<open>inputData[i] = x\<close>.\<close>

definition pcm16 :: "sample \<Rightarrow> int" where
  "pcm16 x =
     (let sample = clamp_sample x
      in to_int16 (if negative sample then times_const sample 32768
                   else times_const sample 32767))"

section \<open>Recognition results and timers\<close>

text \<open>
  One entry of \<open>event.results\<close> of the Web Speech API, as the handlers read it: the flag
  \<open>isFinal\<close>, and the transcript and the confidence of its first alternative
  \<open>result[0]\<close>. In the words of the specification an entry with \<open>isFinal\<close> is a Final
  event and any other entry is a Partial event.
\<close>

record speech_result =
  isFinal :: bool
  alt_transcript :: string
  alt_confidence :: rat

record result_event =
  resultIndex :: nat
  results :: "speech_result list"

text \<open>The entries the loop \<open>for (i = event.resultIndex; i < event.results.length; i++)\<close> visits.\<close>

definition visited :: "result_event \<Rightarrow> speech_result list" where
  "visited e = drop (resultIndex e) (results e)"

text \<open>
  The callbacks the hooks hand to \<open>setTimeout\<close> without keeping the timer id. A pending
  one is a pair of its delay in milliseconds and what it does when it fires. A callback of
  the hook with \<open>restartRecognition\<close> is a closure of the render that created it: its
  argument is the value \<open>isListening\<close> had in that render, which is the value the callback
  reads when it fires, and the value the \<open>restartRecognition\<close> it calls reads.
\<close>

datatype callback =
    Start_listening_if_listening
  | Recognition_start_if_listening
  | Restart_recognition bool
  | Restart_recognition_if_listening bool

section \<open>The hook of \<open>src/hooks/useSpeechRecognition.js\<close>\<close>

text \<open>
  The state variables and the ref \<open>finalTranscriptRef\<close> of the hook, and the timers it
  has pending. The handlers below read no state variable: they call the setters and use
  the ref. The timer \<open>onerror\<close> sets is kept as a pending entry; what it does when it
  fires is not part of this development.
\<close>

record hook =
  isListening :: bool
  transcript :: string
  interimTranscript :: string
  latestFinalSegment :: string
  error :: "string option"
  isSupported :: bool
  confidence :: rat
  language :: string
  finalTranscriptRef :: string
  timeouts :: "(nat \<times> callback) list"

definition init_hook :: hook where
  "init_hook =
     \<lparr>isListening = False, transcript = [], interimTranscript = [], latestFinalSegment = [],
      error = None, isSupported = False, confidence = 0, language = ''en-US'',
      finalTranscriptRef = [], timeouts = []\<rparr>"

text \<open>
  The loop of \<open>recognition.onresult\<close>, with its two local strings \<open>finalSegment\<close> and
  \<open>newInterimTranscript\<close> as accumulators.
\<close>

fun results_loop ::
  "speech_result list \<Rightarrow> string \<Rightarrow> string \<Rightarrow> 'a hook_scheme \<Rightarrow> string \<times> string \<times> 'a hook_scheme"
where
  "results_loop [] finalSegment newInterimTranscript s = (finalSegment, newInterimTranscript, s)"
| "results_loop (r # rs) finalSegment newInterimTranscript s =
     (if isFinal r
      then results_loop rs (finalSegment @ alt_transcript r @ '' '') newInterimTranscript
             (s\<lparr>confidence := alt_confidence r\<rparr>)
      else results_loop rs finalSegment (newInterimTranscript @ alt_transcript r) s)"

definition onresult :: "result_event \<Rightarrow> 'a hook_scheme \<Rightarrow> 'a hook_scheme" where
  "onresult e s =
     (case results_loop (visited e) [] [] s of
        (finalSegment, newInterimTranscript, s1) \<Rightarrow>
          (if truthy finalSegment
           then s1\<lparr>latestFinalSegment := trim finalSegment,
                   finalTranscriptRef := finalTranscriptRef s1 @ finalSegment,
                   transcript := trim (finalTranscriptRef s1 @ finalSegment)\<rparr>
           else s1)
          \<lparr>interimTranscript := newInterimTranscript\<rparr>)"


definition resetTranscript :: "'a hook_scheme \<Rightarrow> 'a hook_scheme" where
  "resetTranscript s =
     s\<lparr>transcript := [], interimTranscript := [], latestFinalSegment := [],
       finalTranscriptRef := [], confidence := 0\<rparr>"

section \<open>The hook with \<open>checkAndPushInterim\<close> (first file of \<open>unnamed/part_004\<close>)\<close>

text \<open>
  The auto-push callback is a function of the caller: \<open>autoPushCallbackRef\<close> records
  whether one has been registered with \<open>setAutoPushCallback\<close>, and \<open>pushed\<close> the texts it
  has been called with, oldest first.
\<close>

record hook_cb = hook +
  autoPushCallbackRef :: bool
  pushed :: "string list"

record hook_push = hook_cb +
  lastPushTimeRef :: int

definition setAutoPushCallback :: "'a hook_cb_scheme \<Rightarrow> 'a hook_cb_scheme" where
  "setAutoPushCallback s = s\<lparr>autoPushCallbackRef := True\<rparr>"

text \<open>\<open>checkAndPushInterim\<close>, with \<open>now\<close> the value of \<open>Date.now()\<close>.\<close>

definition checkAndPushInterim :: "int \<Rightarrow> 'a hook_push_scheme \<Rightarrow> 'a hook_push_scheme" where
  "checkAndPushInterim now s =
     (let timeSinceLastPush = now - lastPushTimeRef s
      in if truthy (interimTranscript s) \<and>
            (length (interimTranscript s) > 200 \<or>
             (length (interimTranscript s) > 50 \<and> timeSinceLastPush > 10000))
         then (if autoPushCallbackRef s
               then s\<lparr>pushed := pushed s @ [interimTranscript s],
                       lastPushTimeRef := now,
                       interimTranscript := [],
                       finalTranscriptRef := finalTranscriptRef s @ interimTranscript s @ '' '',
                       transcript := trim (finalTranscriptRef s @ interimTranscript s @ '' '')\<rparr>
               else s)
         else s)"

text \<open>
  The body of the effect with the dependencies \<open>interimTranscript\<close> and \<open>isListening\<close>.
  An effect that runs is the one of the latest render, so it reads both from the state.
\<close>

definition interim_effect :: "int \<Rightarrow> 'a hook_push_scheme \<Rightarrow> 'a hook_push_scheme" where
  "interim_effect now s =
     (if isListening s \<and> truthy (interimTranscript s) then checkAndPushInterim now s else s)"

text \<open>
  One result event at time \<open>now\<close>: the handler (the same text as in
  \<open>src/hooks/useSpeechRecognition.js\<close>) runs, and the effect runs after it when the event
  has changed \<open>interimTranscript\<close>, the only one of its dependencies a result event can
  change. The effect runs once more after a push has emptied \<open>interimTranscript\<close>, and
  then does nothing.
\<close>

definition process_result :: "int \<Rightarrow> result_event \<Rightarrow> 'a hook_push_scheme \<Rightarrow> 'a hook_push_scheme" where
  "process_result now e s =
     (let s1 = onresult e s
      in if interimTranscript s1 \<noteq> interimTranscript s then interim_effect now s1 else s1)"

definition init_hook_push :: "int \<Rightarrow> hook_push" where
  "init_hook_push mounted =
     \<lparr>isListening = False, transcript = [], interimTranscript = [], latestFinalSegment = [],
      error = None, isSupported = False, confidence = 0, language = ''en-US'',
      finalTranscriptRef = [], timeouts = [], autoPushCallbackRef = False, pushed = [],
      lastPushTimeRef = mounted\<rparr>"

section \<open>The hook with \<open>restartRecognition\<close> (second file of \<open>unnamed/part_004\<close>)\<close>

text \<open>
  Besides the state variables and refs of the source the record holds what the handlers
  act on outside the hook: \<open>speechRecognition\<close> tells whether the browser provides the
  constructor \<open>SpeechRecognition\<close>, and \<open>attempts\<close> counts the calls of
  \<open>recognition.start()\<close>. \<open>recognitionRef\<close> tells whether the ref holds a recognition
  object. \<open>restartTimeoutRef\<close> describes the timer the ref points to while that timer is
  pending, and is \<open>None\<close> once it has fired or has been cleared.

  \<open>isListening\<close> is a state variable: a function made by \<open>useCallback\<close>, the handlers of
  the recognition object such a function creates, and the callbacks these hand to
  \<open>setTimeout\<close> all read the value \<open>isListening\<close> had in the render that made the
  function, not the value in the state when they run. That captured value is the argument
  \<open>lis\<close> of the definitions below. \<open>restartRecognition\<close>, the callback of its timer, the
  \<open>initializeRecognition\<close> that callback calls and the handlers of the object it creates
  belong to one render and so share one captured value, which a pending timer keeps beside
  its delay.
\<close>

record hook_robust = hook_cb +
  speechRecognition :: bool
  recognitionRef :: bool
  restartTimeoutRef :: "(nat \<times> bool) option"
  isRestartingRef :: bool
  lastResultTimeRef :: int
  consecutiveErrorsRef :: nat
  restartDelayRef :: nat
  attempts :: nat

definition maxConsecutiveErrors :: nat where
  "maxConsecutiveErrors = 5"

text \<open>What \<open>recognition.start()\<close> does when it is called.\<close>

datatype outcome = Started | Throws

definition restartRecognition :: "bool \<Rightarrow> hook_robust \<Rightarrow> hook_robust" where
  "restartRecognition lis s =
     (if isRestartingRef s \<or> \<not> lis then s
      else s\<lparr>isRestartingRef := True,
             restartTimeoutRef := Some (min (restartDelayRef s) 10000, lis)\<rparr>)"

definition initializeRecognition :: "hook_robust \<Rightarrow> hook_robust" where
  "initializeRecognition s =
     (if \<not> speechRecognition s
      then s\<lparr>isSupported := False,
              error := Some ''Speech recognition not supported in this browser''\<rparr>
      else s\<lparr>recognitionRef := True\<rparr>)"

text \<open>
  The callback \<open>restartRecognition\<close> hands to \<open>setTimeout\<close>. The call
  \<open>recognitionRef.current?.start()\<close> is made when the ref holds an object, and \<open>out\<close>
  tells what it does.
\<close>

definition restart_timeout :: "bool \<Rightarrow> outcome \<Rightarrow> hook_robust \<Rightarrow> hook_robust" where
  "restart_timeout lis out s =
     (let s' =
        (if lis
         then (let s1 = initializeRecognition s
               in if \<not> recognitionRef s1
                  then s1\<lparr>consecutiveErrorsRef := 0, restartDelayRef := 1000\<rparr>
                  else (case out of
                          Started \<Rightarrow>
                            s1\<lparr>attempts := attempts s1 + 1, consecutiveErrorsRef := 0,
                               restartDelayRef := 1000\<rparr>
                        | Throws \<Rightarrow>
                            (let s2 = s1\<lparr>attempts := attempts s1 + 1,
                                          consecutiveErrorsRef := consecutiveErrorsRef s1 + 1,
                                          restartDelayRef := restartDelayRef s1 * 2\<rparr>
                             in if consecutiveErrorsRef s2 < maxConsecutiveErrors
                                then restartRecognition lis s2
                                else s2\<lparr>error := Some ''Speech recognition failed after multiple attempts'',
                                        isListening := False\<rparr>)))
         else s)
      in s'\<lparr>isRestartingRef := False\<rparr>)"

text \<open>The loop of \<open>recognition.onresult\<close> of this hook.\<close>

fun results_loop_robust ::
  "speech_result list \<Rightarrow> string \<Rightarrow> string \<Rightarrow> 'a hook_cb_scheme \<Rightarrow>
   string \<times> string \<times> 'a hook_cb_scheme"
where
  "results_loop_robust [] finalSegment newInterimTranscript s =
     (finalSegment, newInterimTranscript, s)"
| "results_loop_robust (r # rs) finalSegment newInterimTranscript s =
     (if isFinal r
      then results_loop_robust rs (finalSegment @ alt_transcript r @ '' '') newInterimTranscript
             (let s1 = s\<lparr>confidence := (if alt_confidence r = 0 then 8 / 10 else alt_confidence r)\<rparr>
              in if autoPushCallbackRef s1 \<and> truthy (trim (alt_transcript r))
                 then s1\<lparr>pushed := pushed s1 @ [trim (alt_transcript r)]\<rparr>
                 else s1)
      else results_loop_robust rs finalSegment (newInterimTranscript @ alt_transcript r) s)"

definition onresult_robust :: "int \<Rightarrow> result_event \<Rightarrow> hook_robust \<Rightarrow> hook_robust" where
  "onresult_robust now e s =
     (case results_loop_robust (visited e) [] [] (s\<lparr>lastResultTimeRef := now\<rparr>) of
        (finalSegment, newInterimTranscript, s1) \<Rightarrow>
          (let s2 = (if truthy (trim finalSegment)
                     then (let cleanSegment = trim finalSegment
                           in s1\<lparr>latestFinalSegment := cleanSegment,
                                 finalTranscriptRef := finalTranscriptRef s1 @ cleanSegment @ '' '',
                                 transcript := trim (finalTranscriptRef s1 @ cleanSegment @ '' '')\<rparr>)
                     else s1);
               s3 = s2\<lparr>interimTranscript := newInterimTranscript\<rparr>
           in if length newInterimTranscript > 150 \<and> autoPushCallbackRef s3
              then s3\<lparr>pushed := pushed s3 @ [newInterimTranscript], interimTranscript := []\<rparr>
              else s3))"

text \<open>
  \<open>recognition.onerror\<close> of an object whose handlers captured \<open>lis\<close>; the timers it sets
  call the \<open>restartRecognition\<close> of the same render.
\<close>

definition onerror_robust :: "bool \<Rightarrow> string \<Rightarrow> hook_robust \<Rightarrow> hook_robust" where
  "onerror_robust lis errorType s0 =
     (let s = s0\<lparr>consecutiveErrorsRef := consecutiveErrorsRef s0 + 1\<rparr>
      in if errorType = ''no-speech''
         then (if lis then s\<lparr>timeouts := timeouts s @ [(500, Restart_recognition lis)]\<rparr>
               else s)
         else if errorType = ''audio-capture''
         then s\<lparr>error := Some ''Microphone access denied or unavailable'', isListening := False\<rparr>
         else if errorType = ''not-allowed''
         then s\<lparr>error := Some ''Microphone permission denied'', isListening := False\<rparr>
         else if errorType = ''network''
         then (let s1 = s\<lparr>error := Some ''Network error - check your connection''\<rparr>
               in if consecutiveErrorsRef s1 < maxConsecutiveErrors
                  then s1\<lparr>timeouts := timeouts s1 @ [(2000, Restart_recognition lis)]\<rparr>
                  else s1\<lparr>isListening := False\<rparr>)
         else if errorType = ''service-not-allowed''
         then s\<lparr>error := Some ''Speech recognition service not allowed'', isListening := False\<rparr>
         else if errorType = ''language-not-supported''
         then s\<lparr>error := Some (''Language '' @ language s @ '' not supported''),
                 isListening := False\<rparr>
         else if consecutiveErrorsRef s < maxConsecutiveErrors \<and> lis
         then s\<lparr>timeouts := timeouts s @ [(1000, Restart_recognition lis)]\<rparr>
         else s\<lparr>error := Some (''Speech recognition error: '' @ errorType), isListening := False\<rparr>)"

definition onend_robust :: "bool \<Rightarrow> hook_robust \<Rightarrow> hook_robust" where
  "onend_robust lis s =
     (if lis \<and> \<not> isRestartingRef s
      then s\<lparr>timeouts := timeouts s @ [(100, Restart_recognition_if_listening lis)]\<rparr>
      else s)"

definition onstart_robust :: "int \<Rightarrow> hook_robust \<Rightarrow> hook_robust" where
  "onstart_robust now s = s\<lparr>error := None, consecutiveErrorsRef := 0, lastResultTimeRef := now\<rparr>"

text \<open>
  The callbacks of the two intervals. An effect sets each interval in a render in which
  \<open>isListening\<close> is true and clears it when \<open>isListening\<close> changes: the callback runs
  only while the state has \<open>isListening\<close>, and the \<open>isListening\<close> and the
  \<open>restartRecognition\<close> it reads are those of a render in which it is true.
\<close>

definition monitor_tick :: "int \<Rightarrow> hook_robust \<Rightarrow> hook_robust" where
  "monitor_tick now s =
     (if isListening s \<and> now - lastResultTimeRef s > 30000 \<and> \<not> isRestartingRef s
      then restartRecognition True s else s)"

definition force_restart_tick :: "hook_robust \<Rightarrow> hook_robust" where
  "force_restart_tick s =
     (if isListening s \<and> \<not> isRestartingRef s then restartRecognition True s else s)"

text \<open>
  \<open>startListening\<close> is called by the user of the hook, who holds the function of the
  latest render: it reads \<open>isSupported\<close> and \<open>isListening\<close> from the state.
\<close>

definition startListening_robust :: "outcome \<Rightarrow> hook_robust \<Rightarrow> hook_robust" where
  "startListening_robust out s =
     (if \<not> isSupported s then s\<lparr>error := Some ''Speech recognition not supported''\<rparr>
      else if \<not> isListening s
      then (let s1 = s\<lparr>isListening := True, error := None, consecutiveErrorsRef := 0,
                       restartDelayRef := 1000\<rparr>;
                s2 = (if \<not> recognitionRef s1 then initializeRecognition s1 else s1)
            in if \<not> recognitionRef s2 then s2
               else (case out of
                       Started \<Rightarrow> s2\<lparr>attempts := attempts s2 + 1\<rparr>
                     | Throws \<Rightarrow>
                         s2\<lparr>attempts := attempts s2 + 1,
                            error := Some ''Failed to start speech recognition'',
                            isListening := False\<rparr>))
      else s)"

text \<open>
  \<open>stopListening\<close>: besides the three assignments it clears the interval of the
  preventive restart and calls \<open>recognition.stop()\<close>, neither of which changes the record.
  It reads no state variable.
\<close>

definition stopListening_robust :: "hook_robust \<Rightarrow> hook_robust" where
  "stopListening_robust s =
     s\<lparr>isListening := False, isRestartingRef := False, restartTimeoutRef := None\<rparr>"

text \<open>An untracked timer fires: \<open>cb\<close> is the callback that was handed to \<open>setTimeout\<close>.\<close>

fun run_callback :: "callback \<Rightarrow> hook_robust \<Rightarrow> hook_robust" where
  "run_callback (Restart_recognition lis) s = restartRecognition lis s"
| "run_callback (Restart_recognition_if_listening lis) s =
     (if lis then restartRecognition lis s else s)"
| "run_callback cb s = s"

text \<open>
  What can happen to the hook. An event of a recognition object carries the value its
  handlers captured. A timer fires only while it is pending, and is no longer pending
  afterwards.
\<close>

datatype robust_event =
    Result int result_event
  | Upstream_error bool string
  | Upstream_end bool
  | Upstream_start int
  | Timeout_fires nat callback
  | Restart_timer_fires outcome
  | Monitor_tick int
  | Force_restart_tick
  | Start_listening outcome
  | Stop_listening
  | Reset_transcript

fun step :: "hook_robust \<Rightarrow> robust_event \<Rightarrow> hook_robust" where
  "step s (Result now e) = onresult_robust now e s"
| "step s (Upstream_error lis errorType) = onerror_robust lis errorType s"
| "step s (Upstream_end lis) = onend_robust lis s"
| "step s (Upstream_start now) = onstart_robust now s"
| "step s (Timeout_fires d cb) =
     (if (d, cb) \<in> set (timeouts s)
      then run_callback cb (s\<lparr>timeouts := remove1 (d, cb) (timeouts s)\<rparr>)
      else s)"
| "step s (Restart_timer_fires out) =
     (case restartTimeoutRef s of
        None \<Rightarrow> s
      | Some (d, lis) \<Rightarrow> restart_timeout lis out (s\<lparr>restartTimeoutRef := None\<rparr>))"
| "step s (Monitor_tick now) = monitor_tick now s"
| "step s Force_restart_tick = force_restart_tick s"
| "step s (Start_listening out) = startListening_robust out s"
| "step s Stop_listening = stopListening_robust s"
| "step s Reset_transcript = resetTranscript s"

definition run :: "hook_robust \<Rightarrow> robust_event list \<Rightarrow> hook_robust" where
  "run s evs = foldl step s evs"

text \<open>
  The hook after its first render and its mount effect in a browser that provides
  \<open>SpeechRecognition\<close>, at time \<open>mounted\<close>.
\<close>

definition init_hook_robust :: "int \<Rightarrow> hook_robust" where
  "init_hook_robust mounted =
     \<lparr>isListening = False, transcript = [], interimTranscript = [], latestFinalSegment = [],
      error = None, isSupported = True, confidence = 0, language = ''en-US'',
      finalTranscriptRef = [], timeouts = [], autoPushCallbackRef = False, pushed = [],
      speechRecognition = True, recognitionRef = True, restartTimeoutRef = None,
      isRestartingRef = False, lastResultTimeRef = mounted, consecutiveErrorsRef = 0,
      restartDelayRef = 1000, attempts = 0\<rparr>"

text \<open>
  A failure of the upstream while the hook listens: an error event of a recognition object
  whose handlers captured \<open>isListening\<close> as true, or a restart attempt whose \<open>start()\<close>
  throws. The attempt is one the interval of the preventive restart begins: its callback
  calls \<open>restartRecognition\<close>, whose timer then fires.
\<close>

datatype failure = Error_event string | Failed_restart

fun events_of :: "failure \<Rightarrow> robust_event list" where
  "events_of (Error_event errorType) = [Upstream_error True errorType]"
| "events_of Failed_restart = [Force_restart_tick, Restart_timer_fires Throws]"

definition fail :: "hook_robust \<Rightarrow> failure \<Rightarrow> hook_robust" where
  "fail s f = run s (events_of f)"

text \<open>The events of \<open>k\<close> restart attempts in a row whose \<open>start()\<close> throws.\<close>

fun failed_attempts :: "nat \<Rightarrow> robust_event list" where
  "failed_attempts 0 = []"
| "failed_attempts (Suc k) = Force_restart_tick # Restart_timer_fires Throws # failed_attempts k"

text \<open>The error types the \<open>switch\<close> of \<open>recognition.onerror\<close> has no case for.\<close>

definition unclassified :: "string \<Rightarrow> bool" where
  "unclassified errorType =
     (errorType \<notin> {''no-speech'', ''audio-capture'', ''not-allowed'', ''network'',
                    ''service-not-allowed'', ''language-not-supported''})"

section \<open>The hook for the streaming socket (\<open>unnamed/part_005\<close>)\<close>

text \<open>
  A parsed message of the socket, as \<open>onmessage\<close> reads it. A field that is absent is
  falsy, like \<open>False\<close> and the empty string.
\<close>

record turn_message =
  msg_type :: string
  end_of_turn :: bool
  msg_transcript :: string

record hook_socket =
  isListening_ws :: bool
  transcript_ws :: string
  interimTranscript_ws :: string
  error_ws :: "string option"

definition onmessage :: "turn_message \<Rightarrow> hook_socket \<Rightarrow> hook_socket" where
  "onmessage data s =
     (if msg_type data = ''Turn''
      then (if end_of_turn data \<and> truthy (msg_transcript data)
            then s\<lparr>transcript_ws := msg_transcript data, interimTranscript_ws := []\<rparr>
            else if \<not> end_of_turn data \<and> truthy (msg_transcript data)
            then s\<lparr>interimTranscript_ws := msg_transcript data\<rparr>
            else s)
      else s)"

definition init_hook_socket :: hook_socket where
  "init_hook_socket =
     \<lparr>isListening_ws = False, transcript_ws = [], interimTranscript_ws = [], error_ws = None\<rparr>"

section \<open>What the specification says of the committed transcript\<close>

text \<open>
  The concatenation of the text of each Final entry, each followed by a single space, in
  order; the claims speak of this string, trimmed.
\<close>

definition final_text :: "speech_result list \<Rightarrow> string" where
  "final_text rs = concat (map (\<lambda>r. alt_transcript r @ '' '') (filter isFinal rs))"

definition interim_text :: "speech_result list \<Rightarrow> string" where
  "interim_text rs = concat (map alt_transcript (filter (\<lambda>r. \<not> isFinal r) rs))"

text \<open>A text that is not empty and neither starts nor ends with white space.\<close>

definition clean :: "string \<Rightarrow> bool" where
  "clean t = (t \<noteq> [] \<and> \<not> is_ws (hd t) \<and> \<not> is_ws (last t))"

text \<open>Result events and socket messages applied in arrival order.\<close>

definition run_results :: "'a hook_scheme \<Rightarrow> result_event list \<Rightarrow> 'a hook_scheme" where
  "run_results s es = foldl (\<lambda>s e. onresult e s) s es"

definition run_results_robust :: "hook_robust \<Rightarrow> (int \<times> result_event) list \<Rightarrow> hook_robust" where
  "run_results_robust s tes = foldl (\<lambda>s (now, e). onresult_robust now e s) s tes"

definition run_messages :: "hook_socket \<Rightarrow> turn_message list \<Rightarrow> hook_socket" where
  "run_messages s ms = foldl (\<lambda>s m. onmessage m s) s ms"

text \<open>The entries a sequence of result events delivers, in order.\<close>

definition entries :: "result_event list \<Rightarrow> speech_result list" where
  "entries es = concat (map visited es)"

text \<open>The Final messages of the socket: the turns that have ended with a text.\<close>

definition final_turn :: "turn_message \<Rightarrow> bool" where
  "final_turn m = (msg_type m = ''Turn'' \<and> end_of_turn m \<and> truthy (msg_transcript m))"

definition final_text_ws :: "turn_message list \<Rightarrow> string" where
  "final_text_ws ms = concat (map (\<lambda>m. msg_transcript m @ '' '') (filter final_turn ms))"

text \<open>Events with one entry, and turn messages, for concrete runs.\<close>

definition final_result :: "string \<Rightarrow> result_event" where
  "final_result t =
     \<lparr>resultIndex = 0, results = [\<lparr>isFinal = True, alt_transcript = t, alt_confidence = 9 / 10\<rparr>]\<rparr>"

definition partial_result :: "string \<Rightarrow> result_event" where
  "partial_result t =
     \<lparr>resultIndex = 0, results = [\<lparr>isFinal = False, alt_transcript = t, alt_confidence = 0\<rparr>]\<rparr>"

definition turn :: "bool \<Rightarrow> string \<Rightarrow> turn_message" where
  "turn ended t = \<lparr>msg_type = ''Turn'', end_of_turn = ended, msg_transcript = t\<rparr>"

text \<open>What one result event appends to the ref of the robust hook.\<close>

definition appended :: "result_event \<Rightarrow> string" where
  "appended e =
     (if truthy (trim (final_text (visited e))) then trim (final_text (visited e)) @ '' '' else [])"

text \<open>The hook with \<open>checkAndPushInterim\<close>, mounted at time 0, listening, with a callback registered.\<close>

definition listening_push :: hook_push where
  "listening_push = (init_hook_push 0)\<lparr>isListening := True, autoPushCallbackRef := True\<rparr>"

text \<open>
  The failures the bound applies to: a failed restart attempt, a \<open>network\<close> error and
  an error the \<open>switch\<close> has no case for.
\<close>

definition counted :: "failure \<Rightarrow> bool" where
  "counted f = (case f of
      Failed_restart \<Rightarrow> True
    | Error_event errorType \<Rightarrow> errorType = ''network'' \<or> unclassified errorType)"

text \<open>The hook listening with \<open>k\<close> consecutive failures counted and no restart under way.\<close>

definition steady :: "nat \<Rightarrow> hook_robust \<Rightarrow> bool" where
  "steady k s =
     (isListening s \<and> consecutiveErrorsRef s = k \<and> \<not> isRestartingRef s \<and> recognitionRef s \<and>
      speechRecognition s \<and> restartTimeoutRef s = None)"

text \<open>The hook after \<open>startListening\<close> has started recognition in the initial state.\<close>

definition listening_robust :: hook_robust where
  "listening_robust = startListening_robust Started (init_hook_robust 0)"

text \<open>
  The hook during a backoff: a \<open>network\<close> error and the end of the recognition object
  have set their timers, the timer of \<open>onend\<close> has fired and \<open>restartRecognition\<close>
  has set its own timer of one second.
\<close>

definition backing_off :: hook_robust where
  "backing_off =
     run listening_robust
       [Upstream_error True ''network'', Upstream_end True,
        Timeout_fires 100 (Restart_recognition_if_listening True)]"

section \<open>Properties of trimming\<close>

lemma is_ws_space: "is_ws CHR '' ''"
  by (simp add: is_ws_def)

lemma rstrip_prefix: "prefix (rev (dropWhile P (rev x))) x"
proof -
  have "rev x = takeWhile P (rev x) @ dropWhile P (rev x)" by simp
  then have "x = rev (dropWhile P (rev x)) @ rev (takeWhile P (rev x))"
    by (metis rev_append rev_rev_ident)
  then show ?thesis by (metis prefixI)
qed

lemma trim_blank: "\<forall>c \<in> set r. is_ws c \<Longrightarrow> trim r = []"
  by (auto simp: trim_def dest: set_dropWhileD)

lemma trim_prefix_append: "prefix (trim r) (trim (r @ t))"
proof (cases "\<forall>c \<in> set r. is_ws c")
  case True
  then show ?thesis by (simp add: trim_blank)
next
  case False
  then obtain x where x: "x \<in> set r" "\<not> is_ws x" by blast
  then have left: "dropWhile is_ws (r @ t) = dropWhile is_ws r @ t"
    by (rule dropWhile_append1)
  show ?thesis
  proof (cases "\<forall>c \<in> set t. is_ws c")
    case True
    then have "dropWhile is_ws (rev t @ rev (dropWhile is_ws r)) = dropWhile is_ws (rev (dropWhile is_ws r))"
      by (auto intro!: dropWhile_append2)
    then show ?thesis by (simp add: trim_def left)
  next
    case False
    then obtain y where "y \<in> set (rev t)" "\<not> is_ws y" by auto
    then have "dropWhile is_ws (rev t @ rev (dropWhile is_ws r)) =
        dropWhile is_ws (rev t) @ rev (dropWhile is_ws r)"
      by (rule dropWhile_append1)
    then have "trim (r @ t) = dropWhile is_ws r @ rev (dropWhile is_ws (rev t))"
      by (simp add: trim_def left)
    moreover have "prefix (trim r) (dropWhile is_ws r)"
      unfolding trim_def by (rule rstrip_prefix)
    ultimately show ?thesis by (simp add: prefix_prefix)
  qed
qed

lemma trim_clean_space: "clean y \<Longrightarrow> trim (y @ '' '') = y"
proof -
  assume c: "clean y"
  then obtain a ys where y: "y = a # ys" and a: "\<not> is_ws a"
    by (cases y) (auto simp: clean_def)
  from c have l: "\<not> is_ws (last y)" and ne: "y \<noteq> []" by (auto simp: clean_def)
  have "dropWhile is_ws (y @ '' '') = y @ '' ''" using y a by simp
  moreover have "dropWhile is_ws (rev (y @ '' '')) = rev y"
  proof -
    have "rev y = last y # tl (rev y)" using ne
      by (metis hd_rev list.collapse rev_is_Nil_conv)
    then have "dropWhile is_ws (rev y) = rev y" using l
      by (metis dropWhile.simps(2))
    then show ?thesis by (simp add: is_ws_space)
  qed
  ultimately show ?thesis by (simp add: trim_def)
qed

lemma clean_join: "clean a \<Longrightarrow> clean b \<Longrightarrow> clean (a @ '' '' @ b)"
  by (auto simp: clean_def)

lemma final_text_Nil [simp]: "final_text [] = []"
  by (simp add: final_text_def)

lemma final_text_Cons:
  "final_text (r # rs) = (if isFinal r then alt_transcript r @ '' '' @ final_text rs else final_text rs)"
  by (simp add: final_text_def)

lemma final_text_append: "final_text (xs @ ys) = final_text xs @ final_text ys"
  by (simp add: final_text_def)

lemma final_text_clean:
  "\<forall>r \<in> set rs. isFinal r \<longrightarrow> clean (alt_transcript r) \<Longrightarrow>
   final_text rs = [] \<or> (\<exists>y. clean y \<and> final_text rs = y @ '' '')"
proof (induction rs)
  case Nil
  then show ?case by simp
next
  case (Cons r rs)
  then have ih: "final_text rs = [] \<or> (\<exists>y. clean y \<and> final_text rs = y @ '' '')" by simp
  show ?case
  proof (cases "isFinal r")
    case False
    with ih show ?thesis by (simp add: final_text_Cons)
  next
    case True
    with Cons.prems have c: "clean (alt_transcript r)" by simp
    from ih show ?thesis
    proof
      assume "final_text rs = []"
      with True c show ?thesis by (auto simp: final_text_Cons)
    next
      assume "\<exists>y. clean y \<and> final_text rs = y @ '' ''"
      then obtain y where y: "clean y" "final_text rs = y @ '' ''" by blast
      have "clean (alt_transcript r @ '' '' @ y)" using c y(1) by (rule clean_join)
      moreover have "final_text (r # rs) = (alt_transcript r @ '' '' @ y) @ '' ''"
        using True y(2) by (simp add: final_text_Cons)
      ultimately show ?thesis by blast
    qed
  qed
qed

section \<open>Properties of the note sink\<close>

lemma appendToNote_currentNote_None:
  "(currentNote (appendToNote now i t a) = None) = (currentNote a = None)"
  by (simp add: appendToNote_def split: option.split list.split)

lemma segment_effect_skip:
  "lastProcessedSegment a = seg \<or> \<not> truthy seg \<Longrightarrow> segment_effect now seg a = a"
  by (auto simp: segment_effect_def split: option.split)

lemma segment_effect_last:
  "currentNote a \<noteq> None \<Longrightarrow> truthy seg \<Longrightarrow>
   lastProcessedSegment (segment_effect now seg a) = seg"
  by (auto simp: segment_effect_def split: option.split)

lemma segment_effect_notes:
  "currentNote a = Some c \<Longrightarrow> truthy seg \<Longrightarrow> seg \<noteq> lastProcessedSegment a \<Longrightarrow>
   notes_st (segment_effect now seg a) =
     map (\<lambda>n. if note_id n = note_id c then updatedNote now seg n else n) (notes_st a)"
  by (simp add: segment_effect_def appendToNote_def)

text \<open>
  Claim C10. While a note is selected, a final segment delivered a second time in a row
  changes nothing: the state after the two deliveries is the state after the first, in
  which the segment, when it is new and not empty, has been appended once to every note
  with the id of the selected note.
\<close>

theorem duplicate_segment_appended_once:
  assumes "currentNote a = Some c"
  shows "segment_effect now2 seg (segment_effect now1 seg a) = segment_effect now1 seg a \<and>
         (truthy seg \<and> seg \<noteq> lastProcessedSegment a \<longrightarrow>
          notes_st (segment_effect now2 seg (segment_effect now1 seg a)) =
            map (\<lambda>n. if note_id n = note_id c then updatedNote now1 seg n else n) (notes_st a))"
proof -
  have twice: "segment_effect now2 seg (segment_effect now1 seg a) = segment_effect now1 seg a"
  proof (cases "truthy seg")
    case True
    from assms have "currentNote a \<noteq> None" by simp
    then have "lastProcessedSegment (segment_effect now1 seg a) = seg"
      using True by (rule segment_effect_last)
    then show ?thesis by (simp add: segment_effect_skip)
  next
    case False
    then show ?thesis by (simp add: segment_effect_skip)
  qed
  then show ?thesis
    using assms by (simp add: segment_effect_notes)
qed

theorem duplicate_segment_appended_once_witness:
  "notes_st
     (segment_effect ''t2'' ''world''
        (segment_effect ''t1'' ''world''
           \<lparr>notes_st = [\<lparr>note_id = ''7'', content = ''hello'', updatedAt = ''t0'', wordCount = 1\<rparr>],
            currentNote = Some \<lparr>note_id = ''7'', content = ''hello'', updatedAt = ''t0'', wordCount = 1\<rparr>,
            lastProcessedSegment = []\<rparr>)) =
   [\<lparr>note_id = ''7'', content = ''hello world'', updatedAt = ''t1'', wordCount = 2\<rparr>]"
  using duplicate_segment_appended_once
    [of "\<lparr>notes_st = [\<lparr>note_id = ''7'', content = ''hello'', updatedAt = ''t0'', wordCount = 1\<rparr>],
          currentNote = Some \<lparr>note_id = ''7'', content = ''hello'', updatedAt = ''t0'', wordCount = 1\<rparr>,
          lastProcessedSegment = []\<rparr>"
        "\<lparr>note_id = ''7'', content = ''hello'', updatedAt = ''t0'', wordCount = 1\<rparr>"
        "''t2''" "''world''" "''t1''"]
  by (simp add: segment_effect_def appendToNote_def truthy_def updatedNote_def word_count_def
      is_ws_def)

section \<open>Properties of the PCM conversion\<close>

lemma trunc_rat_bounds:
  assumes "- 32768 \<le> q" and "q \<le> 32767"
  shows "- 32768 \<le> trunc_rat q" and "trunc_rat q \<le> 32767"
proof -
  show "- 32768 \<le> trunc_rat q"
  proof (cases "0 \<le> q")
    case True
    then show ?thesis by (simp add: trunc_rat_def)
  next
    case False
    have "(- 32768 :: int) \<le> \<lceil>q\<rceil>"
      using assms(1) by (metis ceiling_mono ceiling_of_int of_int_minus of_int_numeral)
    with False show ?thesis by (simp add: trunc_rat_def)
  qed
  show "trunc_rat q \<le> 32767"
  proof (cases "0 \<le> q")
    case True
    have "\<lfloor>q\<rfloor> \<le> (32767 :: int)"
      using assms(2) by (metis floor_mono floor_of_int of_int_numeral)
    with True show ?thesis by (simp add: trunc_rat_def)
  next
    case False
    then have "\<lceil>q\<rceil> \<le> 0" by (simp add: ceiling_le_zero)
    with False show ?thesis by (simp add: trunc_rat_def)
  qed
qed

lemma scaled_bounds:
  fixes c :: rat
  assumes "- 1 \<le> c" and "c \<le> 1"
  shows "- 32768 \<le> (if c < 0 then c * 32768 else c * 32767)"
    and "(if c < 0 then c * 32768 else c * 32767) \<le> 32767"
  using assms by auto

lemma pcm16_trunc:
  assumes "c = max (- 1) (min 1 q)"
  shows "pcm16 (Finite q) = trunc_rat (if c < 0 then c * 32768 else c * 32767)"
    and "- 32768 \<le> trunc_rat (if c < 0 then c * 32768 else c * 32767)"
    and "trunc_rat (if c < 0 then c * 32768 else c * 32767) \<le> 32767"
proof -
  let ?q = "if c < 0 then c * 32768 else c * 32767"
  have c: "- 1 \<le> c" "c \<le> 1" using assms by simp_all
  show lo: "- 32768 \<le> trunc_rat ?q" and hi: "trunc_rat ?q \<le> 32767"
    using trunc_rat_bounds [OF scaled_bounds [OF c]] by simp_all
  have "clamp_sample (Finite q) = Finite c"
    using assms by (simp add: clamp_sample_def)
  then have "pcm16 (Finite q) = (trunc_rat ?q + 32768) mod 65536 - 32768"
    by (simp add: pcm16_def)
  also have "\<dots> = trunc_rat ?q"
    using lo hi by simp
  finally show "pcm16 (Finite q) = trunc_rat ?q" .
qed

lemma trunc_rat_scaled:
  "trunc_rat (if c < 0 then c * 32768 else c * 32767) =
     (if c < 0 then \<lceil>c * 32768\<rceil> else \<lfloor>c * 32767\<rfloor>)"
proof (cases "c < 0")
  case True
  then have "\<not> 0 \<le> c * 32768" by (simp add: mult_less_0_iff)
  with True show ?thesis by (simp add: trunc_rat_def)
next
  case False
  then have "0 \<le> c * 32767" by simp
  with False show ?thesis by (simp add: trunc_rat_def)
qed

lemma pcm16_Finite:
  "pcm16 (Finite q) =
     (if max (- 1) (min 1 q) < 0 then \<lceil>max (- 1) (min 1 q) * 32768\<rceil>
      else \<lfloor>max (- 1) (min 1 q) * 32767\<rfloor>)"
  using pcm16_trunc(1) [OF refl, of q] trunc_rat_scaled [of "max (- 1) (min 1 q)"]
  by (simp only:)

lemma pcm16_Finite_range: "- 32768 \<le> pcm16 (Finite q) \<and> pcm16 (Finite q) \<le> 32767"
  using pcm16_trunc [OF refl, of q] by (simp only:)

text \<open>
  Claim C9. The conversion clamps the sample: a finite sample \<open>q\<close> becomes
  \<open>max (- 1) (min 1 q)\<close>, the infinities become 1 and -1. It stores the clamped sample
  times 32768 when that is negative and times 32767 otherwise, rounded towards zero (up for
  a negative product, down otherwise); the reduction into 16 bits changes nothing. The
  stored value lies between -32768 and 32767 for every sample. A sample that is not a
  number passes the clamp as it is and is stored as 0.
\<close>

theorem pcm16_clamps_scales_in_range:
  "clamp_sample x =
     (case x of
        Finite q \<Rightarrow> Finite (max (- 1) (min 1 q))
      | PosInf \<Rightarrow> Finite 1
      | NegInf \<Rightarrow> Finite (- 1)
      | NaN \<Rightarrow> NaN) \<and>
   pcm16 x =
     (case x of
        Finite q \<Rightarrow>
          (if max (- 1) (min 1 q) < 0 then \<lceil>max (- 1) (min 1 q) * 32768\<rceil>
           else \<lfloor>max (- 1) (min 1 q) * 32767\<rfloor>)
      | PosInf \<Rightarrow> 32767
      | NegInf \<Rightarrow> - 32768
      | NaN \<Rightarrow> 0) \<and>
   - 32768 \<le> pcm16 x \<and> pcm16 x \<le> 32767"
proof (cases x)
  case (Finite q)
  have "clamp_sample (Finite q) = Finite (max (- 1) (min 1 q))"
    by (simp add: clamp_sample_def)
  with Finite pcm16_Finite [of q] pcm16_Finite_range [of q] show ?thesis by simp
next
  case PosInf
  then show ?thesis by (simp add: pcm16_def clamp_sample_def trunc_rat_def)
next
  case NegInf
  then show ?thesis by (simp add: pcm16_def clamp_sample_def trunc_rat_def)
next
  case NaN
  then show ?thesis by (simp add: pcm16_def clamp_sample_def)
qed

theorem pcm16_clamps_scales_in_range_witness:
  "pcm16 (Finite (1 / 3)) = 10922 \<and> pcm16 (Finite (- 1 / 3)) = - 10922 \<and>
   pcm16 (Finite (5 / 2)) = 32767 \<and> pcm16 (Finite (- 5 / 2)) = - 32768 \<and>
   pcm16 (Finite 0) = 0 \<and> pcm16 PosInf = 32767 \<and> pcm16 NegInf = - 32768 \<and> pcm16 NaN = 0"
proof -
  have f1: "\<lfloor>32767 / 3 :: rat\<rfloor> = 10922" by code_simp
  have f2: "\<lceil>- (32768 / 3) :: rat\<rceil> = - 10922" by code_simp
  show ?thesis
    using pcm16_clamps_scales_in_range [of "Finite (1 / 3)"]
      pcm16_clamps_scales_in_range [of "Finite (- 1 / 3)"]
      pcm16_clamps_scales_in_range [of "Finite (5 / 2)"]
      pcm16_clamps_scales_in_range [of "Finite (- 5 / 2)"]
      pcm16_clamps_scales_in_range [of "Finite 0"]
      pcm16_clamps_scales_in_range [of PosInf]
      pcm16_clamps_scales_in_range [of NegInf]
      pcm16_clamps_scales_in_range [of NaN]
    by (simp add: f1 f2)
qed

section \<open>The committed transcript\<close>

lemma interim_text_Nil [simp]: "interim_text [] = []"
  by (simp add: interim_text_def)

lemma results_loop_fst: "fst (results_loop rs fs ni s) = fs @ final_text rs"
  by (induction rs arbitrary: fs ni s) (simp_all add: final_text_Cons)

lemma results_loop_snd: "fst (snd (results_loop rs fs ni s)) = ni @ interim_text rs"
  by (induction rs arbitrary: fs ni s) (simp_all add: interim_text_def)

lemma results_loop_state: "\<exists>c. snd (snd (results_loop rs fs ni s)) = s\<lparr>confidence := c\<rparr>"
proof (induction rs arbitrary: fs ni s)
  case Nil
  have "s = s\<lparr>confidence := confidence s\<rparr>" by simp
  then show ?case by (metis results_loop.simps(1) snd_conv)
next
  case (Cons r rs)
  show ?case
  proof (cases "isFinal r")
    case True
    obtain c where "snd (snd (results_loop rs (fs @ alt_transcript r @ '' '') ni (s\<lparr>confidence := alt_confidence r\<rparr>)))
        = s\<lparr>confidence := alt_confidence r\<rparr>\<lparr>confidence := c\<rparr>"
      using Cons.IH by blast
    with True show ?thesis by auto
  next
    case False
    with Cons.IH show ?thesis by simp
  qed
qed

lemma onresult_ref:
  "finalTranscriptRef (onresult e s) = finalTranscriptRef s @ final_text (visited e)"
proof -
  obtain fs ni s1 where l: "results_loop (visited e) [] [] s = (fs, ni, s1)"
    by (metis prod_cases3)
  have fs: "fs = final_text (visited e)"
    using results_loop_fst [of "visited e" "[]" "[]" s] l by simp
  obtain c where "s1 = s\<lparr>confidence := c\<rparr>"
    using results_loop_state [of "visited e" "[]" "[]" s] l by auto
  then show ?thesis using l fs by (simp add: onresult_def truthy_def)
qed

lemma onresult_transcript:
  "transcript s = trim (finalTranscriptRef s) \<Longrightarrow>
   transcript (onresult e s) = trim (finalTranscriptRef (onresult e s))"
proof -
  assume inv: "transcript s = trim (finalTranscriptRef s)"
  obtain fs ni s1 where l: "results_loop (visited e) [] [] s = (fs, ni, s1)"
    by (metis prod_cases3)
  obtain c where "s1 = s\<lparr>confidence := c\<rparr>"
    using results_loop_state [of "visited e" "[]" "[]" s] l by auto
  then show ?thesis using l inv by (simp add: onresult_def truthy_def)
qed

lemma run_results_snoc: "run_results s (es @ [e]) = onresult e (run_results s es)"
  by (simp add: run_results_def)

lemma entries_snoc: "entries (es @ [e]) = entries es @ visited e"
  by (simp add: entries_def)

lemma run_results_ref:
  "finalTranscriptRef (run_results s es) = finalTranscriptRef s @ final_text (entries es)"
proof (induction es rule: rev_induct)
  case Nil
  then show ?case by (simp add: run_results_def entries_def)
next
  case (snoc e es)
  then show ?case
    by (simp add: run_results_snoc entries_snoc onresult_ref final_text_append)
qed

lemma run_results_transcript:
  "transcript s = trim (finalTranscriptRef s) \<Longrightarrow>
   transcript (run_results s es) = trim (finalTranscriptRef (run_results s es))"
proof (induction es rule: rev_induct)
  case Nil
  then show ?case by (simp add: run_results_def)
next
  case (snoc e es)
  then show ?case by (simp add: run_results_snoc onresult_transcript)
qed

lemma results_loop_robust_fst: "fst (results_loop_robust rs fs ni s) = fs @ final_text rs"
  by (induction rs arbitrary: fs ni s) (simp_all add: final_text_Cons Let_def)

lemma results_loop_robust_snd: "fst (snd (results_loop_robust rs fs ni s)) = ni @ interim_text rs"
  by (induction rs arbitrary: fs ni s) (simp_all add: interim_text_def Let_def)

lemma results_loop_robust_state:
  "\<exists>c p. snd (snd (results_loop_robust rs fs ni s)) = s\<lparr>confidence := c, pushed := p\<rparr>"
proof (induction rs arbitrary: fs ni s)
  case Nil
  have "s = s\<lparr>confidence := confidence s, pushed := pushed s\<rparr>" by simp
  then show ?case by (metis results_loop_robust.simps(1) snd_conv)
next
  case (Cons r rs)
  show ?case
  proof (cases "isFinal r")
    case True
    define s' where "s' =
      (let s1 = s\<lparr>confidence := (if alt_confidence r = 0 then 8 / 10 else alt_confidence r)\<rparr>
       in if autoPushCallbackRef s1 \<and> truthy (trim (alt_transcript r))
          then s1\<lparr>pushed := pushed s1 @ [trim (alt_transcript r)]\<rparr> else s1)"
    have "\<exists>c p. s' = s\<lparr>confidence := c, pushed := p\<rparr>"
    proof (cases "autoPushCallbackRef s \<and> truthy (trim (alt_transcript r))")
      case True
      then have "s' = s\<lparr>confidence := (if alt_confidence r = 0 then 8 / 10 else alt_confidence r),
                          pushed := pushed s @ [trim (alt_transcript r)]\<rparr>"
        by (simp add: s'_def)
      then show ?thesis by blast
    next
      case False
      then have "s' = s\<lparr>confidence := (if alt_confidence r = 0 then 8 / 10 else alt_confidence r)\<rparr>"
        by (auto simp: s'_def)
      then have "s' = s\<lparr>confidence := (if alt_confidence r = 0 then 8 / 10 else alt_confidence r),
                          pushed := pushed s\<rparr>"
        by simp
      then show ?thesis by blast
    qed
    then obtain c p where s': "s' = s\<lparr>confidence := c, pushed := p\<rparr>" by blast
    obtain c' p' where "snd (snd (results_loop_robust rs (fs @ alt_transcript r @ '' '') ni s')) =
        s'\<lparr>confidence := c', pushed := p'\<rparr>"
      using Cons.IH by blast
    then have "snd (snd (results_loop_robust (r # rs) fs ni s)) = s\<lparr>confidence := c', pushed := p'\<rparr>"
      using True by (simp add: s' s'_def [symmetric])
    then show ?thesis by blast
  next
    case False
    with Cons.IH show ?thesis by simp
  qed
qed


lemma onresult_robust_ref:
  "finalTranscriptRef (onresult_robust now e s) = finalTranscriptRef s @ appended e"
proof -
  let ?s0 = "s\<lparr>lastResultTimeRef := now\<rparr>"
  obtain fs ni s1 where l: "results_loop_robust (visited e) [] [] ?s0 = (fs, ni, s1)"
    by (metis prod_cases3)
  have fs: "fs = final_text (visited e)"
    using results_loop_robust_fst [of "visited e" "[]" "[]" ?s0] l by simp
  obtain c p where "s1 = ?s0\<lparr>confidence := c, pushed := p\<rparr>"
    using results_loop_robust_state [of "visited e" "[]" "[]" ?s0] l by auto
  then show ?thesis using l fs by (simp add: onresult_robust_def appended_def Let_def)
qed

lemma onresult_robust_transcript:
  assumes "transcript s = trim (finalTranscriptRef s)"
  shows "transcript (onresult_robust now e s) = trim (finalTranscriptRef (onresult_robust now e s))"
proof -
  let ?s0 = "s\<lparr>lastResultTimeRef := now\<rparr>"
  obtain fs ni s1 where l: "results_loop_robust (visited e) [] [] ?s0 = (fs, ni, s1)"
    by (metis prod_cases3)
  obtain c p where "s1 = ?s0\<lparr>confidence := c, pushed := p\<rparr>"
    using results_loop_robust_state [of "visited e" "[]" "[]" ?s0] l by auto
  then show ?thesis using l assms by (simp add: onresult_robust_def Let_def)
qed

lemma appended_clean:
  assumes "\<forall>r \<in> set (visited e). isFinal r \<longrightarrow> clean (alt_transcript r)"
  shows "appended e = final_text (visited e)"
proof -
  from final_text_clean [OF assms]
  show ?thesis
  proof
    assume "final_text (visited e) = []"
    then show ?thesis by (simp add: appended_def trim_def truthy_def)
  next
    assume "\<exists>y. clean y \<and> final_text (visited e) = y @ '' ''"
    then obtain y where y: "clean y" "final_text (visited e) = y @ '' ''" by blast
    then have "trim (final_text (visited e)) = y" by (simp add: trim_clean_space)
    moreover have "y \<noteq> []" using y(1) by (simp add: clean_def)
    ultimately show ?thesis using y(2) by (simp add: appended_def truthy_def)
  qed
qed

lemma run_results_robust_snoc:
  "run_results_robust s (tes @ [(now, e)]) = onresult_robust now e (run_results_robust s tes)"
  by (simp add: run_results_robust_def)

lemma run_results_robust_transcript:
  "transcript s = trim (finalTranscriptRef s) \<Longrightarrow>
   transcript (run_results_robust s tes) = trim (finalTranscriptRef (run_results_robust s tes))"
proof (induction tes rule: rev_induct)
  case Nil
  then show ?case by (simp add: run_results_robust_def)
next
  case (snoc te tes)
  obtain now e where "te = (now, e)" by (cases te)
  with snoc show ?case by (simp add: run_results_robust_snoc onresult_robust_transcript)
qed

lemma run_results_robust_ref:
  "finalTranscriptRef (run_results_robust s tes) =
   finalTranscriptRef s @ concat (map (\<lambda>te. appended (snd te)) tes)"
proof (induction tes rule: rev_induct)
  case Nil
  then show ?case by (simp add: run_results_robust_def)
next
  case (snoc te tes)
  obtain now e where "te = (now, e)" by (cases te)
  with snoc show ?case by (simp add: run_results_robust_snoc onresult_robust_ref)
qed

lemma appended_clean_run:
  "\<forall>r \<in> set (entries (map snd tes)). isFinal r \<longrightarrow> clean (alt_transcript r) \<Longrightarrow>
   concat (map (\<lambda>te. appended (snd te)) tes) = final_text (entries (map snd tes))"
proof (induction tes rule: rev_induct)
  case Nil
  then show ?case by (simp add: entries_def)
next
  case (snoc te tes)
  from snoc.prems have 1: "\<forall>r \<in> set (entries (map snd tes)). isFinal r \<longrightarrow> clean (alt_transcript r)"
    and 2: "\<forall>r \<in> set (visited (snd te)). isFinal r \<longrightarrow> clean (alt_transcript r)"
    by (simp_all add: entries_snoc)
  show ?case
    using snoc.IH [OF 1] appended_clean [OF 2]
    by (simp add: entries_snoc final_text_append)
qed

lemma run_messages_snoc: "run_messages s (ms @ [m]) = onmessage m (run_messages s ms)"
  by (simp add: run_messages_def)

lemma onmessage_transcript:
  "transcript_ws (onmessage m s) = (if final_turn m then msg_transcript m else transcript_ws s)"
  by (simp add: onmessage_def final_turn_def)

lemma run_messages_transcript:
  "transcript_ws (run_messages s ms) =
     (if filter final_turn ms = [] then transcript_ws s
      else msg_transcript (last (filter final_turn ms)))"
proof (induction ms rule: rev_induct)
  case Nil
  then show ?case by (simp add: run_messages_def)
next
  case (snoc m ms)
  then show ?case
    by (simp add: run_messages_snoc onmessage_transcript)
qed

lemma trim_Nil [simp]: "trim [] = []"
  by (simp add: trim_def)

text \<open>
  Claim C1, as the code has it. Since the last reset the committed transcript of the hook of
  \<open>src/hooks/useSpeechRecognition.js\<close> is the trimmed concatenation of the texts of the
  Final entries, each followed by a single space, whatever Partial entries come between
  them. The hook with \<open>restartRecognition\<close> trims the final segment of every result
  event before it appends it, so it yields the same string when every Final text is
  \<open>clean\<close>: not empty and without white space at either end. The socket hook keeps
  no more than the text of the last Final message.
\<close>

theorem committed_transcript_of_finals:
  assumes "finalTranscriptRef s = []" and "transcript s = []"
    and "finalTranscriptRef r = []" and "transcript r = []"
    and "transcript_ws w = []"
  shows "transcript (run_results s es) = trim (final_text (entries es)) \<and>
         ((\<forall>x \<in> set (entries (map snd tes)). isFinal x \<longrightarrow> clean (alt_transcript x)) \<longrightarrow>
          transcript (run_results_robust r tes) = trim (final_text (entries (map snd tes)))) \<and>
         transcript_ws (run_messages w ms) =
           (if filter final_turn ms = [] then []
            else msg_transcript (last (filter final_turn ms)))"
proof -
  have "transcript s = trim (finalTranscriptRef s)" using assms(1,2) by simp
  then have "transcript (run_results s es) = trim (finalTranscriptRef (run_results s es))"
    by (rule run_results_transcript)
  then have basic: "transcript (run_results s es) = trim (final_text (entries es))"
    using assms(1) by (simp add: run_results_ref)
  have "transcript r = trim (finalTranscriptRef r)" using assms(3,4) by simp
  then have "transcript (run_results_robust r tes) =
      trim (finalTranscriptRef (run_results_robust r tes))"
    by (rule run_results_robust_transcript)
  then have robust: "transcript (run_results_robust r tes) =
      trim (concat (map (\<lambda>te. appended (snd te)) tes))"
    using assms(3) by (simp add: run_results_robust_ref)
  have socket: "transcript_ws (run_messages w ms) =
      (if filter final_turn ms = [] then []
       else msg_transcript (last (filter final_turn ms)))"
    using assms(5) by (simp add: run_messages_transcript)
  show ?thesis
    using basic robust socket by (simp add: appended_clean_run)
qed

theorem committed_transcript_of_finals_witness:
  "transcript (run_results init_hook
      [partial_result ''hello wor'', final_result ''hello world'', partial_result ''ag'',
       final_result ''again'']) = ''hello world again'' \<and>
   transcript (run_results_robust (init_hook_robust 0)
      [(1, partial_result ''hello wor''), (2, final_result ''hello world''),
       (3, final_result ''again'')]) = ''hello world again'' \<and>
   transcript_ws (run_messages init_hook_socket
      [turn False ''hel'', turn True ''hello'', turn False ''by'', turn True ''bye'']) = ''bye''"
  using committed_transcript_of_finals
    [of init_hook "init_hook_robust 0" init_hook_socket
        "[partial_result ''hello wor'', final_result ''hello world'', partial_result ''ag'',
          final_result ''again'']"
        "[(1, partial_result ''hello wor''), (2, final_result ''hello world''),
          (3, final_result ''again'')]"
        "[turn False ''hel'', turn True ''hello'', turn False ''by'', turn True ''bye'']"]
  by (simp add: init_hook_def init_hook_robust_def init_hook_socket_def entries_def visited_def
      final_result_def partial_result_def final_text_def trim_def is_ws_def clean_def turn_def
      final_turn_def truthy_def)

text \<open>
  Where the claim fails as it is stated: a Final text that starts with a space, as
  \<open>'' world''\<close>, after another one, and two Final messages of the socket.
\<close>

theorem committed_transcript_of_finals_counterexample:
  "transcript (run_results_robust (init_hook_robust 0)
      [(1, final_result ''hello''), (2, final_result '' world'')]) \<noteq>
     trim (final_text (entries [final_result ''hello'', final_result '' world''])) \<and>
   transcript_ws (run_messages init_hook_socket [turn True ''hello'', turn True ''world'']) \<noteq>
     trim (final_text_ws [turn True ''hello'', turn True ''world''])"
  by (simp add: run_results_robust_def onresult_robust_def run_messages_def onmessage_def
      init_hook_robust_def init_hook_socket_def entries_def visited_def final_result_def
      final_text_def final_text_ws_def trim_def is_ws_def turn_def final_turn_def truthy_def)

section \<open>The committed transcript only grows\<close>

lemma restartRecognition_text:
  "transcript (restartRecognition lis s) = transcript s"
  "finalTranscriptRef (restartRecognition lis s) = finalTranscriptRef s"
  by (simp_all add: restartRecognition_def)

lemma restart_timeout_text:
  "transcript (restart_timeout lis out s) = transcript s"
  "finalTranscriptRef (restart_timeout lis out s) = finalTranscriptRef s"
  by (simp_all add: restart_timeout_def initializeRecognition_def restartRecognition_def Let_def
      split: outcome.split)

lemma onerror_robust_text:
  "transcript (onerror_robust lis t s) = transcript s"
  "finalTranscriptRef (onerror_robust lis t s) = finalTranscriptRef s"
  by (simp_all add: onerror_robust_def Let_def)

lemma startListening_robust_text:
  "transcript (startListening_robust out s) = transcript s"
  "finalTranscriptRef (startListening_robust out s) = finalTranscriptRef s"
  by (simp_all add: startListening_robust_def initializeRecognition_def Let_def
      split: outcome.split)

lemma run_callback_text:
  "transcript (run_callback cb s) = transcript s"
  "finalTranscriptRef (run_callback cb s) = finalTranscriptRef s"
  by (cases cb; simp add: restartRecognition_text)+

lemma step_text:
  assumes "\<forall>now e. ev \<noteq> Result now e" and "ev \<noteq> Reset_transcript"
  shows "transcript (step s ev) = transcript s \<and>
         finalTranscriptRef (step s ev) = finalTranscriptRef s"
  using assms
  by (cases ev)
    (simp_all add: onerror_robust_text onend_robust_def onstart_robust_def run_callback_text
      restart_timeout_text monitor_tick_def force_restart_tick_def restartRecognition_text
      startListening_robust_text stopListening_robust_def split: option.split prod.split)

lemma step_invariant:
  assumes "transcript s = trim (finalTranscriptRef s)"
  shows "transcript (step s ev) = trim (finalTranscriptRef (step s ev))"
proof (cases "(\<exists>now e. ev = Result now e) \<or> ev = Reset_transcript")
  case True
  then show ?thesis
    using assms by (auto simp: onresult_robust_transcript resetTranscript_def)
next
  case False
  then show ?thesis using step_text [of ev s] assms by simp
qed

lemma run_invariant:
  "transcript s = trim (finalTranscriptRef s) \<Longrightarrow>
   transcript (run s evs) = trim (finalTranscriptRef (run s evs))"
proof (induction evs rule: rev_induct)
  case Nil
  then show ?case by (simp add: run_def)
next
  case (snoc ev evs)
  then show ?case by (simp add: run_def step_invariant)
qed

lemma step_prefix:
  assumes "transcript s = trim (finalTranscriptRef s)" and "ev \<noteq> Reset_transcript"
  shows "prefix (transcript s) (transcript (step s ev))"
proof (cases "\<exists>now e. ev = Result now e")
  case True
  then obtain now e where ev: "ev = Result now e" by blast
  have "transcript (onresult_robust now e s) = trim (finalTranscriptRef s @ appended e)"
    using onresult_robust_transcript [OF assms(1)] by (simp add: onresult_robust_ref)
  then show ?thesis using assms(1) ev by (simp add: trim_prefix_append)
next
  case False
  then show ?thesis using step_text [of ev s] assms(2) by simp
qed

text \<open>
  Claim C6, as the code has it. In the hook with \<open>restartRecognition\<close> the committed
  transcript, and the ref behind it, only grow between resets: in every state the hook
  reaches from its initial state, and for every event but a reset, the transcript before
  the event is a prefix of the transcript after it. In the socket hook a Final message
  replaces the committed transcript by its own text; any other message leaves it as it is.
\<close>

theorem committed_transcript_append_only:
  assumes "ev \<noteq> Reset_transcript"
  shows "prefix (transcript (run (init_hook_robust t0) evs))
           (transcript (step (run (init_hook_robust t0) evs) ev)) \<and>
         prefix (finalTranscriptRef (run (init_hook_robust t0) evs))
           (finalTranscriptRef (step (run (init_hook_robust t0) evs) ev)) \<and>
         transcript_ws (onmessage m w) =
           (if final_turn m then msg_transcript m else transcript_ws w)"
proof -
  let ?s = "run (init_hook_robust t0) evs"
  have "transcript (init_hook_robust t0) = trim (finalTranscriptRef (init_hook_robust t0))"
    by (simp add: init_hook_robust_def)
  then have inv: "transcript ?s = trim (finalTranscriptRef ?s)"
    by (rule run_invariant)
  have "prefix (finalTranscriptRef ?s) (finalTranscriptRef (step ?s ev))"
  proof (cases "\<exists>now e. ev = Result now e")
    case True
    then show ?thesis by (auto simp: onresult_robust_ref)
  next
    case False
    then show ?thesis using step_text [of ev ?s] assms by simp
  qed
  then show ?thesis
    using step_prefix [OF inv assms] by (simp add: onmessage_transcript)
qed

theorem committed_transcript_append_only_witness:
  "Result 2 (final_result ''world'') \<noteq> Reset_transcript \<and>
   prefix (transcript (run (init_hook_robust 0)
             [Start_listening Started, Result 1 (final_result ''hello'')]))
     (transcript (step (run (init_hook_robust 0)
             [Start_listening Started, Result 1 (final_result ''hello'')])
        (Result 2 (final_result ''world''))))"
  using committed_transcript_append_only
    [of "Result 2 (final_result ''world'')" 0
        "[Start_listening Started, Result 1 (final_result ''hello'')]"]
  by simp

text \<open>
  Where the claim fails as it is stated: in the socket hook a second Final message makes
  the committed transcript shorter.
\<close>

theorem committed_transcript_append_only_counterexample:
  "transcript_ws (run_messages init_hook_socket [turn True ''hello world'']) = ''hello world'' \<and>
   transcript_ws (onmessage (turn True ''bye'')
      (run_messages init_hook_socket [turn True ''hello world''])) = ''bye'' \<and>
   \<not> prefix ''hello world'' ''bye''"
  by (simp add: run_messages_def onmessage_def init_hook_socket_def turn_def truthy_def)

section \<open>Pushing the interim text\<close>

lemma final_text_partial: "\<forall>r \<in> set rs. \<not> isFinal r \<Longrightarrow> final_text rs = []"
  by (induction rs) (simp_all add: final_text_Cons)

lemma results_loop_partial:
  "\<forall>r \<in> set rs. \<not> isFinal r \<Longrightarrow> results_loop rs fs ni s = (fs, ni @ interim_text rs, s)"
  by (induction rs arbitrary: ni) (simp_all add: interim_text_def)

lemma results_loop_robust_partial:
  "\<forall>r \<in> set rs. \<not> isFinal r \<Longrightarrow>
   results_loop_robust rs fs ni s = (fs, ni @ interim_text rs, s)"
  by (induction rs arbitrary: ni) (simp_all add: interim_text_def)

lemma onresult_partial:
  "\<forall>r \<in> set (visited e). \<not> isFinal r \<Longrightarrow>
   onresult e s = s\<lparr>interimTranscript := interim_text (visited e)\<rparr>"
  by (simp add: onresult_def results_loop_partial truthy_def)

lemma onresult_interim: "interimTranscript (onresult e s) = interim_text (visited e)"
proof -
  obtain fs ni s1 where l: "results_loop (visited e) [] [] s = (fs, ni, s1)"
    by (metis prod_cases3)
  have "ni = interim_text (visited e)"
    using results_loop_snd [of "visited e" "[]" "[]" s] l by simp
  then show ?thesis using l by (simp add: onresult_def)
qed

lemma onresult_pushed:
  "pushed (onresult e s) = pushed s"
  "autoPushCallbackRef (onresult e s) = autoPushCallbackRef s"
  "isListening (onresult e s) = isListening s"
  "lastPushTimeRef (onresult e s) = lastPushTimeRef s"
proof -
  obtain fs ni s1 where l: "results_loop (visited e) [] [] s = (fs, ni, s1)"
    by (metis prod_cases3)
  obtain c where s1: "s1 = s\<lparr>confidence := c\<rparr>"
    using results_loop_state [of "visited e" "[]" "[]" s] l by auto
  show "pushed (onresult e s) = pushed s"
    "autoPushCallbackRef (onresult e s) = autoPushCallbackRef s"
    "isListening (onresult e s) = isListening s"
    "lastPushTimeRef (onresult e s) = lastPushTimeRef s"
    using l s1 by (simp_all add: onresult_def)
qed

text \<open>What a push of the interim text \<open>t\<close> at time \<open>now\<close> leaves.\<close>

lemma checkAndPushInterim_flush:
  assumes "autoPushCallbackRef s" and "interimTranscript s = t" and "t \<noteq> []"
    and "200 < length t \<or> 50 < length t \<and> 10000 < now - lastPushTimeRef s"
  shows "checkAndPushInterim now s =
     s\<lparr>pushed := pushed s @ [t], lastPushTimeRef := now, interimTranscript := [],
       finalTranscriptRef := finalTranscriptRef s @ t @ '' '',
       transcript := trim (finalTranscriptRef s @ t @ '' '')\<rparr>"
  using assms by (auto simp: checkAndPushInterim_def truthy_def Let_def)

lemma process_result_flush:
  assumes "isListening s" and "autoPushCallbackRef s"
    and "\<forall>r \<in> set (visited e). \<not> isFinal r" and "interim_text (visited e) = t"
    and "interimTranscript s \<noteq> t"
    and "200 < length t \<or> 50 < length t \<and> 10000 < now - lastPushTimeRef s"
  shows "process_result now e s =
     s\<lparr>pushed := pushed s @ [t], lastPushTimeRef := now, interimTranscript := [],
       finalTranscriptRef := finalTranscriptRef s @ t @ '' '',
       transcript := trim (finalTranscriptRef s @ t @ '' '')\<rparr>"
proof -
  let ?s1 = "s\<lparr>interimTranscript := t\<rparr>"
  have t: "t \<noteq> []" using assms(6) by auto
  have 1: "onresult e s = ?s1" using assms(3,4) by (simp add: onresult_partial)
  have "process_result now e s = checkAndPushInterim now ?s1"
    using assms(1,5) t by (simp add: process_result_def 1 interim_effect_def truthy_def)
  also have "\<dots> = ?s1\<lparr>pushed := pushed ?s1 @ [t], lastPushTimeRef := now, interimTranscript := [],
       finalTranscriptRef := finalTranscriptRef ?s1 @ t @ '' '',
       transcript := trim (finalTranscriptRef ?s1 @ t @ '' '')\<rparr>"
    by (rule checkAndPushInterim_flush) (use assms(2,6) t in simp_all)
  finally show ?thesis by simp
qed

lemma onresult_robust_partial:
  assumes "\<forall>r \<in> set (visited e). \<not> isFinal r" and "interim_text (visited e) = t"
  shows "onresult_robust now e s =
     (if 150 < length t \<and> autoPushCallbackRef s
      then s\<lparr>lastResultTimeRef := now, pushed := pushed s @ [t], interimTranscript := []\<rparr>
      else s\<lparr>lastResultTimeRef := now, interimTranscript := t\<rparr>)"
  using assms by (simp add: onresult_robust_def results_loop_robust_partial truthy_def Let_def)

lemma process_result_pushed:
  "pushed (process_result now e s) = pushed s \<or>
   interim_text (visited e) \<noteq> interimTranscript s \<and>
   pushed (process_result now e s) = pushed s @ [interim_text (visited e)]"
  by (auto simp: process_result_def Let_def interim_effect_def checkAndPushInterim_def
      onresult_pushed onresult_interim)

text \<open>
  Claim C2, as the code has it. A result event whose entries are all Partial and whose
  interim text is 210 characters long is pushed at once, without a Final entry: by the hook
  with \<open>checkAndPushInterim\<close> when it is listening, a callback is registered and the
  text differs from the interim text before the event (the effect runs on a change); the
  text goes once to the callback and, followed by a space, to the committed transcript, and
  the interim text is emptied. The hook with \<open>restartRecognition\<close> needs a registered
  callback only; it hands the text once to the callback and empties the interim text, and
  it leaves the committed transcript as it was.
\<close>

theorem force_flush_long_partial:
  assumes "\<forall>x \<in> set (visited e). \<not> isFinal x" and "interim_text (visited e) = t"
    and "length t = 210"
  shows "(isListening s \<and> autoPushCallbackRef s \<and> interimTranscript s \<noteq> t \<longrightarrow>
          process_result now e s =
            s\<lparr>pushed := pushed s @ [t], lastPushTimeRef := now, interimTranscript := [],
              finalTranscriptRef := finalTranscriptRef s @ t @ '' '',
              transcript := trim (finalTranscriptRef s @ t @ '' '')\<rparr>) \<and>
         (autoPushCallbackRef r \<longrightarrow>
          onresult_robust now e r =
            r\<lparr>lastResultTimeRef := now, pushed := pushed r @ [t], interimTranscript := []\<rparr>)"
proof -
  have long: "200 < length t \<or> 50 < length t \<and> 10000 < now - lastPushTimeRef s"
    using assms(3) by simp
  have "process_result now e s =
      s\<lparr>pushed := pushed s @ [t], lastPushTimeRef := now, interimTranscript := [],
        finalTranscriptRef := finalTranscriptRef s @ t @ '' '',
        transcript := trim (finalTranscriptRef s @ t @ '' '')\<rparr>"
    if "isListening s" "autoPushCallbackRef s" "interimTranscript s \<noteq> t"
    using that(1,2) assms(1,2) that(3) long by (rule process_result_flush)
  moreover have "onresult_robust now e r =
      r\<lparr>lastResultTimeRef := now, pushed := pushed r @ [t], interimTranscript := []\<rparr>"
    if "autoPushCallbackRef r"
    using that assms(3) by (simp add: onresult_robust_partial [OF assms(1,2)])
  ultimately show ?thesis by blast
qed

theorem force_flush_long_partial_witness:
  "pushed (process_result 7 (partial_result (replicate 210 CHR ''a'')) listening_push) =
     [replicate 210 CHR ''a''] \<and>
   interimTranscript (process_result 7 (partial_result (replicate 210 CHR ''a'')) listening_push) = [] \<and>
   finalTranscriptRef (process_result 7 (partial_result (replicate 210 CHR ''a'')) listening_push) =
     replicate 210 CHR ''a'' @ '' '' \<and>
   pushed (onresult_robust 7 (partial_result (replicate 210 CHR ''a''))
     (setAutoPushCallback (init_hook_robust 0))) = [replicate 210 CHR ''a'']"
  using force_flush_long_partial
    [of "partial_result (replicate 210 CHR ''a'')" "replicate 210 CHR ''a''" listening_push 7
        "setAutoPushCallback (init_hook_robust 0)"]
  by (simp add: listening_push_def init_hook_push_def init_hook_robust_def
      setAutoPushCallback_def partial_result_def visited_def interim_text_def)

text \<open>
  Where the claim fails as it is stated: the hook with \<open>restartRecognition\<close> does not
  append the pushed text to the committed transcript, and without a registered callback
  the hook with \<open>checkAndPushInterim\<close> pushes nothing and keeps the interim text.
\<close>

theorem force_flush_long_partial_counterexample:
  "pushed (onresult_robust 7 (partial_result (replicate 210 CHR ''a''))
     (setAutoPushCallback (init_hook_robust 0))) = [replicate 210 CHR ''a''] \<and>
   transcript (onresult_robust 7 (partial_result (replicate 210 CHR ''a''))
     (setAutoPushCallback (init_hook_robust 0))) = [] \<and>
   finalTranscriptRef (onresult_robust 7 (partial_result (replicate 210 CHR ''a''))
     (setAutoPushCallback (init_hook_robust 0))) = [] \<and>
   pushed (process_result 7 (partial_result (replicate 210 CHR ''a''))
     ((init_hook_push 0)\<lparr>isListening := True\<rparr>)) = [] \<and>
   interimTranscript (process_result 7 (partial_result (replicate 210 CHR ''a''))
     ((init_hook_push 0)\<lparr>isListening := True\<rparr>)) = replicate 210 CHR ''a''"
  by (simp add: onresult_robust_def process_result_def onresult_def interim_effect_def
      checkAndPushInterim_def init_hook_push_def init_hook_robust_def setAutoPushCallback_def
      partial_result_def visited_def truthy_def trim_def)

text \<open>
  Claim C7, as the code has it. In the hook with \<open>checkAndPushInterim\<close>, a Partial text
  of 60 characters that arrives more than 10 seconds after the last push is pushed as it
  arrives (the hook listening, a callback registered, the text new). One that arrives
  within 10 seconds of the last push is held. The next result event does not push the held
  text: it replaces the interim text and can push only its own. The hook looks at a held
  text again only when its effect runs without a new text, as it does when \<open>isListening\<close>
  changes; the effect then pushes the held text if the hook is listening, a callback is
  registered and more than 10 seconds have passed since the last push. The hook with
  \<open>restartRecognition\<close> never pushes a Partial text of 60 characters.
\<close>

theorem force_flush_timeout:
  assumes "\<forall>x \<in> set (visited e). \<not> isFinal x" and "interim_text (visited e) = t"
    and "length t = 60"
  shows "(isListening s \<and> autoPushCallbackRef s \<and> interimTranscript s \<noteq> t \<and>
          10000 < now - lastPushTimeRef s \<longrightarrow>
          process_result now e s =
            s\<lparr>pushed := pushed s @ [t], lastPushTimeRef := now, interimTranscript := [],
              finalTranscriptRef := finalTranscriptRef s @ t @ '' '',
              transcript := trim (finalTranscriptRef s @ t @ '' '')\<rparr>) \<and>
         (now - lastPushTimeRef s \<le> 10000 \<longrightarrow>
          process_result now e s = s\<lparr>interimTranscript := t\<rparr>) \<and>
         (pushed (process_result now' e' (s\<lparr>interimTranscript := t\<rparr>)) = pushed s \<or>
          interim_text (visited e') \<noteq> t \<and>
          pushed (process_result now' e' (s\<lparr>interimTranscript := t\<rparr>)) =
            pushed s @ [interim_text (visited e')]) \<and>
         onresult_robust now e r = r\<lparr>lastResultTimeRef := now, interimTranscript := t\<rparr> \<and>
         (isListening s \<and> autoPushCallbackRef s \<and> 10000 < now' - lastPushTimeRef s \<longrightarrow>
          interim_effect now' (s\<lparr>interimTranscript := t\<rparr>) =
            s\<lparr>pushed := pushed s @ [t], lastPushTimeRef := now', interimTranscript := [],
              finalTranscriptRef := finalTranscriptRef s @ t @ '' '',
              transcript := trim (finalTranscriptRef s @ t @ '' '')\<rparr>)"
proof -
  have flush: "process_result now e s =
      s\<lparr>pushed := pushed s @ [t], lastPushTimeRef := now, interimTranscript := [],
        finalTranscriptRef := finalTranscriptRef s @ t @ '' '',
        transcript := trim (finalTranscriptRef s @ t @ '' '')\<rparr>"
    if "isListening s" "autoPushCallbackRef s" "interimTranscript s \<noteq> t"
      "10000 < now - lastPushTimeRef s"
  proof -
    have "200 < length t \<or> 50 < length t \<and> 10000 < now - lastPushTimeRef s"
      using assms(3) that(4) by simp
    with that(1,2) assms(1,2) that(3) show ?thesis by (rule process_result_flush)
  qed
  have held: "process_result now e s = s\<lparr>interimTranscript := t\<rparr>"
    if "now - lastPushTimeRef s \<le> 10000"
    using that assms(3)
    by (simp add: process_result_def onresult_partial [OF assms(1), unfolded assms(2)]
        interim_effect_def checkAndPushInterim_def Let_def)
  have later: "pushed (process_result now' e' (s\<lparr>interimTranscript := t\<rparr>)) = pushed s \<or>
      interim_text (visited e') \<noteq> t \<and>
      pushed (process_result now' e' (s\<lparr>interimTranscript := t\<rparr>)) =
        pushed s @ [interim_text (visited e')]"
    using process_result_pushed [of now' e' "s\<lparr>interimTranscript := t\<rparr>"] by simp
  have robust: "onresult_robust now e r = r\<lparr>lastResultTimeRef := now, interimTranscript := t\<rparr>"
    using assms(3) by (simp add: onresult_robust_partial [OF assms(1,2)])
  have again: "interim_effect now' (s\<lparr>interimTranscript := t\<rparr>) =
      s\<lparr>pushed := pushed s @ [t], lastPushTimeRef := now', interimTranscript := [],
        finalTranscriptRef := finalTranscriptRef s @ t @ '' '',
        transcript := trim (finalTranscriptRef s @ t @ '' '')\<rparr>"
    if "isListening s" "autoPushCallbackRef s" "10000 < now' - lastPushTimeRef s"
  proof -
    let ?s1 = "s\<lparr>interimTranscript := t\<rparr>"
    have t: "t \<noteq> []" using assms(3) by auto
    have "interim_effect now' ?s1 = checkAndPushInterim now' ?s1"
      using that(1) t by (simp add: interim_effect_def truthy_def)
    also have "\<dots> = ?s1\<lparr>pushed := pushed ?s1 @ [t], lastPushTimeRef := now',
        interimTranscript := [],
        finalTranscriptRef := finalTranscriptRef ?s1 @ t @ '' '',
        transcript := trim (finalTranscriptRef ?s1 @ t @ '' '')\<rparr>"
      by (rule checkAndPushInterim_flush) (use that(2,3) assms(3) t in simp_all)
    finally show ?thesis by simp
  qed
  from flush held later robust again show ?thesis by blast
qed

theorem force_flush_timeout_witness:
  "pushed (process_result 11000 (partial_result (replicate 60 CHR ''a'')) listening_push) =
     [replicate 60 CHR ''a''] \<and>
   interimTranscript (process_result 11000 (partial_result (replicate 60 CHR ''a'')) listening_push) = [] \<and>
   interimTranscript (process_result 5000 (partial_result (replicate 60 CHR ''a'')) listening_push) =
     replicate 60 CHR ''a'' \<and>
   pushed (interim_effect 16000
     (process_result 5000 (partial_result (replicate 60 CHR ''a'')) listening_push)) =
     [replicate 60 CHR ''a''] \<and>
   interimTranscript (onresult_robust 11000 (partial_result (replicate 60 CHR ''a''))
     (setAutoPushCallback (init_hook_robust 0))) = replicate 60 CHR ''a''"
proof -
  have partial: "\<forall>x \<in> set (visited (partial_result (replicate 60 CHR ''a''))). \<not> isFinal x"
    and tx: "interim_text (visited (partial_result (replicate 60 CHR ''a''))) =
      replicate 60 CHR ''a''"
    and len: "length (replicate 60 CHR ''a'') = 60"
    by (simp_all add: partial_result_def visited_def interim_text_def)
  note late = force_flush_timeout [OF partial tx len, of listening_push 11000 16000
      "partial_result ''x''" "setAutoPushCallback (init_hook_robust 0)"]
  note early = force_flush_timeout [OF partial tx len, of listening_push 5000 16000
      "partial_result ''x''" "setAutoPushCallback (init_hook_robust 0)"]
  have l: "isListening listening_push" "autoPushCallbackRef listening_push"
    "interimTranscript listening_push \<noteq> replicate 60 CHR ''a''"
    "lastPushTimeRef listening_push = 0" "pushed listening_push = []"
    by (simp_all add: listening_push_def init_hook_push_def)
  have 1: "process_result 11000 (partial_result (replicate 60 CHR ''a'')) listening_push =
      listening_push\<lparr>pushed := pushed listening_push @ [replicate 60 CHR ''a''],
        lastPushTimeRef := 11000, interimTranscript := [],
        finalTranscriptRef := finalTranscriptRef listening_push @ replicate 60 CHR ''a'' @ '' '',
        transcript := trim (finalTranscriptRef listening_push @ replicate 60 CHR ''a'' @ '' '')\<rparr>"
    using late [THEN conjunct1] l by simp
  have 2: "process_result 5000 (partial_result (replicate 60 CHR ''a'')) listening_push =
      listening_push\<lparr>interimTranscript := replicate 60 CHR ''a''\<rparr>"
    using early [THEN conjunct2, THEN conjunct1] l by simp
  have 3: "interim_effect 16000 (listening_push\<lparr>interimTranscript := replicate 60 CHR ''a''\<rparr>) =
      listening_push\<lparr>pushed := pushed listening_push @ [replicate 60 CHR ''a''],
        lastPushTimeRef := 16000, interimTranscript := [],
        finalTranscriptRef := finalTranscriptRef listening_push @ replicate 60 CHR ''a'' @ '' '',
        transcript := trim (finalTranscriptRef listening_push @ replicate 60 CHR ''a'' @ '' '')\<rparr>"
    using early [THEN conjunct2, THEN conjunct2, THEN conjunct2, THEN conjunct2] l by simp
  have 4: "onresult_robust 11000 (partial_result (replicate 60 CHR ''a''))
      (setAutoPushCallback (init_hook_robust 0)) =
      (setAutoPushCallback (init_hook_robust 0))
        \<lparr>lastResultTimeRef := 11000, interimTranscript := replicate 60 CHR ''a''\<rparr>"
    using late [THEN conjunct2, THEN conjunct2, THEN conjunct2, THEN conjunct1] .
  show ?thesis by (simp add: 1 2 3 4 l)
qed

text \<open>
  Where the claim fails as it is stated: a text of 60 characters held since time 5000,
  the last push at time 0, and the next event at time 16000, be it another text or the
  same text again; and the same two events in the hook with \<open>restartRecognition\<close>.
\<close>

theorem force_flush_timeout_counterexample:
  "interimTranscript (process_result 5000 (partial_result (replicate 60 CHR ''a'')) listening_push) =
     replicate 60 CHR ''a'' \<and>
   pushed (process_result 16000 (partial_result ''x'')
     (process_result 5000 (partial_result (replicate 60 CHR ''a'')) listening_push)) = [] \<and>
   transcript (process_result 16000 (partial_result ''x'')
     (process_result 5000 (partial_result (replicate 60 CHR ''a'')) listening_push)) = [] \<and>
   pushed (process_result 16000 (partial_result (replicate 60 CHR ''a''))
     (process_result 5000 (partial_result (replicate 60 CHR ''a'')) listening_push)) = [] \<and>
   pushed (run_results_robust (setAutoPushCallback (init_hook_robust 0))
     [(5000, partial_result (replicate 60 CHR ''a'')), (16000, partial_result ''x'')]) = []"
  by (simp add: process_result_def onresult_def interim_effect_def checkAndPushInterim_def
      run_results_robust_def onresult_robust_def listening_push_def init_hook_push_def
      init_hook_robust_def setAutoPushCallback_def partial_result_def visited_def truthy_def
      trim_def Let_def)

section \<open>Failures, the retry bound and the backoff\<close>

lemma onerror_robust_network:
  "onerror_robust lis ''network'' s =
     (if consecutiveErrorsRef s + 1 < 5
      then s\<lparr>consecutiveErrorsRef := consecutiveErrorsRef s + 1,
             error := Some ''Network error - check your connection'',
             timeouts := timeouts s @ [(2000, Restart_recognition lis)]\<rparr>
      else s\<lparr>consecutiveErrorsRef := consecutiveErrorsRef s + 1,
             error := Some ''Network error - check your connection'',
             isListening := False\<rparr>)"
  by (simp add: onerror_robust_def maxConsecutiveErrors_def Let_def)

lemma onerror_robust_unclassified:
  "unclassified t \<Longrightarrow> onerror_robust lis t s =
     (if consecutiveErrorsRef s + 1 < 5 \<and> lis
      then s\<lparr>consecutiveErrorsRef := consecutiveErrorsRef s + 1,
             timeouts := timeouts s @ [(1000, Restart_recognition lis)]\<rparr>
      else s\<lparr>consecutiveErrorsRef := consecutiveErrorsRef s + 1,
             error := Some (''Speech recognition error: '' @ t),
             isListening := False\<rparr>)"
  by (simp add: onerror_robust_def unclassified_def maxConsecutiveErrors_def Let_def)

lemma force_restart_tick_steady:
  "isListening s \<Longrightarrow> \<not> isRestartingRef s \<Longrightarrow>
   force_restart_tick s =
     s\<lparr>isRestartingRef := True, restartTimeoutRef := Some (min (restartDelayRef s) 10000, True)\<rparr>"
  by (simp add: force_restart_tick_def restartRecognition_def)

lemma fail_restart:
  assumes "isListening s" and "\<not> isRestartingRef s" and "recognitionRef s"
    and "speechRecognition s"
  shows "fail s Failed_restart =
     (if consecutiveErrorsRef s + 1 < 5
      then s\<lparr>attempts := attempts s + 1,
             consecutiveErrorsRef := consecutiveErrorsRef s + 1,
             restartDelayRef := restartDelayRef s * 2,
             restartTimeoutRef := None, isRestartingRef := False\<rparr>
      else s\<lparr>attempts := attempts s + 1,
             consecutiveErrorsRef := consecutiveErrorsRef s + 1,
             restartDelayRef := restartDelayRef s * 2,
             restartTimeoutRef := None,
             error := Some ''Speech recognition failed after multiple attempts'',
             isListening := False, isRestartingRef := False\<rparr>)"
  using assms
  by (simp add: fail_def run_def force_restart_tick_steady restartRecognition_def
      restart_timeout_def initializeRecognition_def maxConsecutiveErrors_def Let_def)

lemma fail_error: "fail s (Error_event t) = onerror_robust True t s"
  by (simp add: fail_def run_def)

lemma steady_fail:
  assumes "steady k s" and "counted f" and "k + 1 < 5"
  shows "steady (k + 1) (fail s f)"
proof (cases f)
  case (Error_event t)
  with assms(2) consider "t = ''network''" | "unclassified t" by (auto simp: counted_def)
  then show ?thesis
  proof cases
    case 1
    with assms(1,3) Error_event show ?thesis
      by (simp add: steady_def fail_error onerror_robust_network)
  next
    case 2
    with assms(1,3) Error_event show ?thesis
      by (simp add: steady_def fail_error onerror_robust_unclassified)
  qed
next
  case Failed_restart
  with assms(1,3) show ?thesis
    by (simp add: steady_def fail_restart)
qed



lemma listening_robust_eq:
  "listening_robust = (init_hook_robust 0)\<lparr>isListening := True, attempts := 1\<rparr>"
  by (simp add: listening_robust_def startListening_robust_def init_hook_robust_def)




lemma run_Cons: "run s (ev # evs) = run (step s ev) evs"
  by (simp add: run_def)

lemma failed_attempts_run:
  "steady c s \<Longrightarrow> c + k < 5 \<Longrightarrow>
   steady (c + k) (run s (failed_attempts k)) \<and>
   restartDelayRef (run s (failed_attempts k)) = restartDelayRef s * 2 ^ k"
proof (induction k arbitrary: c s)
  case 0
  then show ?case by (simp add: run_def)
next
  case (Suc k)
  have step2: "run s (failed_attempts (Suc k)) = run (fail s Failed_restart) (failed_attempts k)"
    by (simp add: fail_def run_def)
  have st: "steady (c + 1) (fail s Failed_restart)"
    using Suc.prems by (intro steady_fail) (simp_all add: counted_def)
  have d: "restartDelayRef (fail s Failed_restart) = restartDelayRef s * 2"
    using Suc.prems by (simp add: steady_def fail_restart)
  have "c + 1 + k < 5" using Suc.prems(2) by simp
  from Suc.IH [OF st this] d show ?case
    unfolding step2 by (simp add: add.assoc mult.assoc)
qed

lemma backoff_delay:
  assumes "steady 0 s" and "restartDelayRef s = 1000" and "k < 5"
  shows "restartTimeoutRef (step (run s (failed_attempts k)) Force_restart_tick) =
         Some (min (1000 * 2 ^ k) 10000, True)"
proof -
  have "0 + k < 5" using assms(3) by simp
  from failed_attempts_run [OF assms(1) this]
  have st: "steady (0 + k) (run s (failed_attempts k))"
    and d: "restartDelayRef (run s (failed_attempts k)) = restartDelayRef s * 2 ^ k"
    by blast+
  from st have "isListening (run s (failed_attempts k))"
    and "\<not> isRestartingRef (run s (failed_attempts k))"
    by (simp_all add: steady_def)
  then show ?thesis
    using d assms(2) by (simp add: force_restart_tick_steady)
qed

text \<open>
  Claim C4, as the code has it. The timer \<open>restartRecognition\<close> sets waits
  \<open>restartDelayRef\<close> milliseconds, capped at 10000. \<open>restartDelayRef\<close> is 1000 after
  \<open>startListening\<close> and after a restart attempt whose \<open>start()\<close> succeeds, which also
  sets the counter to 0, and a restart attempt whose \<open>start()\<close> throws doubles it: from a
  listening state with the counter at 0 and the delay at 1000, the timer of the attempt
  that a caller of \<open>restartRecognition\<close> begins after \<open>k\<close> throwing attempts in a row
  waits \<open>min (1000 * 2 ^ k) 10000\<close> milliseconds, that is 1000, 2000, 4000, 8000 and
  10000 for the five attempts the bound of claim C3 allows. An error event of the
  recognition object, of whatever type, leaves \<open>restartDelayRef\<close> as it is.
\<close>

theorem backoff_delays:
  assumes "isListening s" and "consecutiveErrorsRef s = 0" and "\<not> isRestartingRef s"
    and "recognitionRef s" and "speechRecognition s" and "restartTimeoutRef s = None"
    and "restartDelayRef s = 1000"
  shows "(\<forall>k<5. restartTimeoutRef (step (run s (failed_attempts k)) Force_restart_tick)
                = Some (min (1000 * 2 ^ k) 10000, True)) \<and>
         map (\<lambda>k. restartTimeoutRef (step (run s (failed_attempts k)) Force_restart_tick))
           [0, 1, 2, 3, 4] =
           [Some (1000, True), Some (2000, True), Some (4000, True), Some (8000, True),
            Some (10000, True)] \<and>
         (lis \<and> \<not> isRestartingRef r \<longrightarrow>
          restartTimeoutRef (restartRecognition lis r) =
            Some (min (restartDelayRef r) 10000, lis)) \<and>
         restartDelayRef (restart_timeout True Started r) = 1000 \<and>
         consecutiveErrorsRef (restart_timeout True Started r) = 0 \<and>
         (isSupported r \<and> \<not> isListening r \<longrightarrow>
          restartDelayRef (startListening_robust out r) = 1000 \<and>
          consecutiveErrorsRef (startListening_robust out r) = 0) \<and>
         restartDelayRef (onerror_robust lis errorType r) = restartDelayRef r"
proof -
  have st: "steady 0 s" using assms(1-6) by (simp add: steady_def)
  note d = backoff_delay [OF st assms(7)]
  have all: "\<forall>k<5. restartTimeoutRef (step (run s (failed_attempts k)) Force_restart_tick)
      = Some (min (1000 * 2 ^ k) 10000, True)"
    using d by blast
  have five: "map (\<lambda>k. restartTimeoutRef (step (run s (failed_attempts k)) Force_restart_tick))
      [0, 1, 2, 3, 4] =
      [Some (1000, True), Some (2000, True), Some (4000, True), Some (8000, True),
       Some (10000, True)]"
    using d [of 0] d [of 1] d [of 2] d [of 3] d [of 4]
    by (simp del: failed_attempts.simps step.simps)
  have cap: "restartTimeoutRef (restartRecognition lis r) =
      Some (min (restartDelayRef r) 10000, lis)"
    if "lis \<and> \<not> isRestartingRef r"
    using that by (simp add: restartRecognition_def)
  have reset: "restartDelayRef (restart_timeout True Started r) = 1000 \<and>
      consecutiveErrorsRef (restart_timeout True Started r) = 0"
    by (simp add: restart_timeout_def initializeRecognition_def Let_def)
  have start: "restartDelayRef (startListening_robust out r) = 1000 \<and>
      consecutiveErrorsRef (startListening_robust out r) = 0"
    if "isSupported r \<and> \<not> isListening r"
    using that
    by (simp add: startListening_robust_def initializeRecognition_def Let_def split: outcome.split)
  have errors: "restartDelayRef (onerror_robust lis errorType r) = restartDelayRef r"
    by (simp add: onerror_robust_def Let_def)
  from all five cap reset start errors show ?thesis by blast
qed

theorem backoff_delays_witness:
  "map (\<lambda>k. restartTimeoutRef (step (run listening_robust (failed_attempts k)) Force_restart_tick))
     [0, 1, 2, 3, 4] =
     [Some (1000, True), Some (2000, True), Some (4000, True), Some (8000, True),
      Some (10000, True)]"
  using backoff_delays [of listening_robust]
  by (simp add: listening_robust_eq init_hook_robust_def
      del: failed_attempts.simps step.simps)

text \<open>
  Where the claim fails as it is stated: after three \<open>network\<close> errors in a row, with no
  start between them, the hook is listening with three failures counted, and the
  \<open>restartRecognition\<close> that the timer of the first error calls sets its timer to one
  second.
\<close>

theorem backoff_delays_counterexample:
  "consecutiveErrorsRef (run listening_robust
     [Upstream_error True ''network'', Upstream_error True ''network'',
      Upstream_error True ''network'']) = 3 \<and>
   isListening (run listening_robust
     [Upstream_error True ''network'', Upstream_error True ''network'',
      Upstream_error True ''network'']) \<and>
   restartTimeoutRef (run listening_robust
     [Upstream_error True ''network'', Upstream_error True ''network'',
      Upstream_error True ''network'', Timeout_fires 2000 (Restart_recognition True)]) =
     Some (1000, True)"
  by (simp add: listening_robust_eq init_hook_robust_def run_def onerror_robust_def
      restartRecognition_def maxConsecutiveErrors_def Let_def)

section \<open>Fatal errors and \<open>stopListening\<close>\<close>






lemma backing_off_eq:
  "backing_off = (init_hook_robust 0)\<lparr>isListening := True, attempts := 1,
     consecutiveErrorsRef := 1, error := Some ''Network error - check your connection'',
     timeouts := [(2000, Restart_recognition True)], isRestartingRef := True,
     restartTimeoutRef := Some (1000, True)\<rparr>"
  by (simp add: backing_off_def run_def listening_robust_eq init_hook_robust_def
      onerror_robust_def onend_robust_def restartRecognition_def maxConsecutiveErrors_def Let_def)

text \<open>
  Claim C8 does not hold of the code. \<open>stopListening\<close>, called while the timer of
  \<open>restartRecognition\<close> is pending, sets \<open>isListening\<close> to false and clears that timer,
  but it leaves the timers that \<open>onerror\<close> and \<open>onend\<close> have set. In the state
  \<open>backing_off\<close> the timer of a \<open>network\<close> error is still pending when the user stops
  the hook. When it fires, the \<open>restartRecognition\<close> it calls reads the \<open>isListening\<close> of
  its own render, which is true, finds \<open>isRestartingRef\<close> reset by \<open>stopListening\<close>, and
  sets a new timer; the callback of that timer calls \<open>start()\<close>, a connection attempt
  after the stop, while the hook reports that it is not listening.
\<close>

theorem restart_after_stopListening:
  "restartTimeoutRef backing_off = Some (1000, True) \<and>
   \<not> isListening (step backing_off Stop_listening) \<and>
   restartTimeoutRef (step backing_off Stop_listening) = None \<and>
   restartTimeoutRef (run (step backing_off Stop_listening)
     [Timeout_fires 2000 (Restart_recognition True)]) = Some (1000, True) \<and>
   \<not> isListening (run (step backing_off Stop_listening)
     [Timeout_fires 2000 (Restart_recognition True), Restart_timer_fires Started]) \<and>
   attempts (run (step backing_off Stop_listening)
     [Timeout_fires 2000 (Restart_recognition True), Restart_timer_fires Started]) =
     attempts backing_off + 1"
  by (simp add: backing_off_eq init_hook_robust_def run_def stopListening_robust_def
      restartRecognition_def restart_timeout_def initializeRecognition_def Let_def)

end
